theory Spec2Isabelle
  imports Main "HOL-Library.Word"
begin

section \<open>Common types\<close>

text \<open>
  \<^verbatim>\<open>size_t\<close> is a 64-bit unsigned integer: \<open>+\<close> and \<open>*\<close> wrap around,
  \<open>\<le>\<close> compares unsigned.
\<close>

type_synonym size_t = "64 word"

text \<open>
  The only exception of the source is the \<^verbatim>\<open>std::bad_alloc\<close> of an allocation
  function, and whatever the copy constructor of an element throws. Dereferencing a
  pointer that refers to no object is undefined behaviour; the model stops with
  \<open>Undefined\<close> there.
\<close>

datatype error = BadAlloc | CopyThrows | Undefined

section \<open>The general-purpose allocator\<close>

text \<open>
  A \<^verbatim>\<open>void*\<close> obtained from \<^verbatim>\<open>::operator new\<close> is a region and a byte offset
  into it. The general-purpose allocator is outside the repository. Its state is the
  list of the byte sizes of all regions it has handed out (a region is named by its
  position in that list, so every region is fresh) and the regions given back.
  Whether a request succeeds is the environment's choice: the flag \<open>ok\<close> is the answer
  the next call of \<^verbatim>\<open>::operator new\<close> gets (\<open>False\<close>: it throws \<^verbatim>\<open>std::bad_alloc\<close>).
\<close>

datatype vptr = VPtr (region: nat) (offset: size_t)

record heap =
  regions :: "nat list"
  released :: "nat list"

definition operator_new :: "bool \<Rightarrow> size_t \<Rightarrow> heap \<Rightarrow> (error + vptr) \<times> heap" where
  "operator_new ok n h =
     (if ok then (Inr (VPtr (length (regions h)) 0), h\<lparr>regions := regions h @ [unat n]\<rparr>)
      else (Inl BadAlloc, h))"

definition operator_delete :: "vptr \<Rightarrow> heap \<Rightarrow> heap" where
  "operator_delete p h = h\<lparr>released := region p # released h\<rparr>"

section \<open>FixedAllocator\<close>

text \<open>
  \<^verbatim>\<open>FixedAllocator<chunkSize>\<close>: the template argument is the first argument of every
  function. \<^verbatim>\<open>std::vector::back\<close> is \<open>last\<close>, \<^verbatim>\<open>push_back\<close> appends,
  \<^verbatim>\<open>pop_back\<close> is \<open>butlast\<close>. An exception leaves the object as it was when the
  exception was thrown, so every function returns the state also on failure.
  Isabelle admits no name that ends with an underscore: a member \<^verbatim>\<open>name_\<close> of
  \<^verbatim>\<open>FixedAllocator\<close> is written \<open>name_FA\<close> here.
\<close>

record FixedAllocator =
  capacity_FA :: size_t
  size_FA :: size_t
  chunks_FA :: "vptr list"
  returned_FA :: "vptr list"

definition FixedAllocator_ctor :: "size_t \<Rightarrow> bool \<Rightarrow> heap \<Rightarrow> (error + FixedAllocator) \<times> heap" where
  "FixedAllocator_ctor chunkSize ok h =
     (case operator_new ok (32 * chunkSize) h of
        (Inl e, h') \<Rightarrow> (Inl e, h')
      | (Inr chunk, h') \<Rightarrow>
          (Inr \<lparr>capacity_FA = 32, size_FA = 0, chunks_FA = [chunk], returned_FA = []\<rparr>, h'))"

definition allocate_memory_FA ::
  "size_t \<Rightarrow> bool \<Rightarrow> FixedAllocator \<times> heap \<Rightarrow> (error + unit) \<times> FixedAllocator \<times> heap" where
  "allocate_memory_FA chunkSize ok = (\<lambda>(a, h).
     let a1 = a\<lparr>capacity_FA := capacity_FA a * 2\<rparr> in
     case operator_new ok (capacity_FA a1 * chunkSize) h of
       (Inl e, h') \<Rightarrow> (Inl e, a1, h')
     | (Inr new_chunk, h') \<Rightarrow>
         (Inr (), a1\<lparr>chunks_FA := chunks_FA a1 @ [new_chunk], size_FA := 0\<rparr>, h'))"

definition allocate ::
  "size_t \<Rightarrow> bool \<Rightarrow> FixedAllocator \<times> heap \<Rightarrow> (error + vptr) \<times> FixedAllocator \<times> heap" where
  "allocate chunkSize ok = (\<lambda>(a, h).
     if returned_FA a \<noteq> [] then
       (Inr (last (returned_FA a)), a\<lparr>returned_FA := butlast (returned_FA a)\<rparr>, h)
     else
       case (if size_FA a = capacity_FA a then allocate_memory_FA chunkSize ok (a, h)
             else (Inr (), a, h)) of
         (Inl e, a1, h1) \<Rightarrow> (Inl e, a1, h1)
       | (Inr _, a1, h1) \<Rightarrow>
           if chunks_FA a1 = [] then (Inl Undefined, a1, h1)
           else
             let back = last (chunks_FA a1);
                 memory = VPtr (region back) (offset back + size_FA a1 * chunkSize)
             in (Inr memory, a1\<lparr>size_FA := size_FA a1 + 1\<rparr>, h1))"

definition deallocate :: "vptr \<Rightarrow> FixedAllocator \<Rightarrow> FixedAllocator" where
  "deallocate ptr a = a\<lparr>returned_FA := returned_FA a @ [ptr]\<rparr>"

subsection \<open>Sequences of calls\<close>

text \<open>
  A client of one pool: \<open>Acquire ok\<close> calls \<^verbatim>\<open>allocate()\<close> (with the answer \<open>ok\<close> of
  the general-purpose allocator, should the call reach it) and keeps the block; a call
  that ends in \<^verbatim>\<open>std::bad_alloc\<close> hands out nothing and the client goes on.
  \<open>Release p\<close> calls \<^verbatim>\<open>deallocate(p)\<close>. The blocks the client holds are the
  outstanding ones. Releasing a block that is not outstanding breaks the precondition
  of \<^verbatim>\<open>deallocate\<close>: such a sequence has no run (\<open>None\<close>).
\<close>

datatype pool_op = Acquire bool | Release vptr

record pool_state =
  pool :: FixedAllocator
  sys :: heap
  outstanding :: "vptr list"

fun pool_step :: "size_t \<Rightarrow> pool_op \<Rightarrow> pool_state \<Rightarrow> pool_state option" where
  "pool_step chunkSize (Acquire ok) st =
     (case allocate chunkSize ok (pool st, sys st) of
        (Inl e, a, h) \<Rightarrow> Some (st\<lparr>pool := a, sys := h\<rparr>)
      | (Inr p, a, h) \<Rightarrow> Some (st\<lparr>pool := a, sys := h, outstanding := p # outstanding st\<rparr>))"
| "pool_step chunkSize (Release p) st =
     (if p \<in> set (outstanding st)
      then Some (st\<lparr>pool := deallocate p (pool st), outstanding := remove1 p (outstanding st)\<rparr>)
      else None)"

fun pool_run :: "size_t \<Rightarrow> pool_op list \<Rightarrow> pool_state \<Rightarrow> pool_state option" where
  "pool_run chunkSize [] st = Some st"
| "pool_run chunkSize (x # xs) st =
     (case pool_step chunkSize x st of None \<Rightarrow> None | Some st' \<Rightarrow> pool_run chunkSize xs st')"

text \<open>
  Where the general-purpose allocator places a region is its own choice. A layout
  \<open>base\<close> gives every region the machine address of its first byte; the machine
  address of a block is that of its region plus the offset.
\<close>

definition machine_address :: "(nat \<Rightarrow> nat) \<Rightarrow> vptr \<Rightarrow> nat" where
  "machine_address base p = base (region p) + unat (offset p)"

text \<open>
  What holds of a pool after \<open>k\<close> calls: the cursor is at most the capacity, both are
  small against the number of calls, and every block issued so far (outstanding or in
  the free list) lies in a region of the pool at a multiple of the block size, below
  the cursor when the region is the current one.
\<close>

definition pool_inv :: "size_t \<Rightarrow> nat \<Rightarrow> pool_state \<Rightarrow> bool" where
  "pool_inv B k st \<longleftrightarrow>
     (let a = pool st; issued = outstanding st @ returned_FA a in
      chunks_FA a \<noteq> [] \<and>
      (\<forall>c \<in> set (chunks_FA a). offset c = 0 \<and> region c < length (regions (sys st))) \<and>
      0 < unat (capacity_FA a) \<and>
      unat (size_FA a) \<le> unat (capacity_FA a) \<and>
      unat (size_FA a) \<le> k \<and>
      unat (capacity_FA a) \<le> 32 + 2 * k \<and>
      distinct issued \<and>
      (\<forall>p \<in> set issued.
         (\<exists>c \<in> set (chunks_FA a). region c = region p) \<and>
         unat B dvd unat (offset p) \<and>
         (region p = region (last (chunks_FA a)) \<longrightarrow>
            unat (offset p) < unat (size_FA a) * unat B)))"

text \<open>
  \<open>in_bounds\<close>: the current region has room for exactly \<^verbatim>\<open>capacity_\<close> blocks, and every
  block issued so far lies within its region: the region exists and the block ends
  at or before the end of the region.
\<close>

definition in_bounds :: "size_t \<Rightarrow> pool_state \<Rightarrow> bool" where
  "in_bounds B st \<longleftrightarrow>
     regions (sys st) ! region (last (chunks_FA (pool st))) = unat (capacity_FA (pool st)) * unat B \<and>
     (\<forall>p \<in> set (outstanding st @ returned_FA (pool st)).
        region p < length (regions (sys st)) \<and>
        unat (offset p) + unat B \<le> regions (sys st) ! region p)"

section \<open>FastAllocator\<close>

text \<open>
  \<^verbatim>\<open>FastAllocator<T>\<close> has no data members; what it needs of \<open>T\<close> is
  \<^verbatim>\<open>sizeof(T)\<close>, the first argument here. The state of the program is the static
  member \<^verbatim>\<open>FixedAllocator<chunkSize>::allocator_\<close> of every instantiation (\<open>None\<close>:
  the null pointer, no singleton yet) and the general-purpose allocator. The storage
  of a singleton object itself is not represented. \<^verbatim>\<open>reinterpret_cast\<close> leaves the
  address as it is.
\<close>

definition maxSize :: size_t where
  "maxSize = 32"

record program =
  allocator_FA :: "size_t \<Rightarrow> FixedAllocator option"
  general :: heap

definition getFixedAllocator ::
  "size_t \<Rightarrow> bool \<Rightarrow> program \<Rightarrow> (error + FixedAllocator) \<times> program" where
  "getFixedAllocator chunkSize ok g =
     (case allocator_FA g chunkSize of
        None \<Rightarrow>
          (case FixedAllocator_ctor chunkSize ok (general g) of
             (Inl e, h') \<Rightarrow> (Inl e, g\<lparr>general := h'\<rparr>)
           | (Inr a, h') \<Rightarrow>
               (Inr a, g\<lparr>allocator_FA := (allocator_FA g)(chunkSize \<mapsto> a), general := h'\<rparr>))
      | Some a \<Rightarrow> (Inr a, g))"

definition FastAllocator_allocate ::
  "size_t \<Rightarrow> bool \<Rightarrow> size_t \<Rightarrow> program \<Rightarrow> (error + vptr) \<times> program" where
  "FastAllocator_allocate sizeofT ok n g =
     (if sizeofT \<le> maxSize \<and> n \<le> 1 then
        (case getFixedAllocator sizeofT ok g of
           (Inl e, g1) \<Rightarrow> (Inl e, g1)
         | (Inr a, g1) \<Rightarrow>
             (case allocate sizeofT ok (a, general g1) of
                (r, a', h') \<Rightarrow>
                  (r, g1\<lparr>allocator_FA := (allocator_FA g1)(sizeofT \<mapsto> a'), general := h'\<rparr>)))
      else
        (case operator_new ok (n * sizeofT) (general g) of
           (r, h') \<Rightarrow> (r, g\<lparr>general := h'\<rparr>)))"

definition FastAllocator_deallocate ::
  "size_t \<Rightarrow> bool \<Rightarrow> vptr \<Rightarrow> size_t \<Rightarrow> program \<Rightarrow> (error + unit) \<times> program" where
  "FastAllocator_deallocate sizeofT ok point n g =
     (if sizeofT \<le> maxSize \<and> n \<le> 1 then
        (case getFixedAllocator sizeofT ok g of
           (Inl e, g1) \<Rightarrow> (Inl e, g1)
         | (Inr a, g1) \<Rightarrow>
             (Inr (), g1\<lparr>allocator_FA := (allocator_FA g1)(sizeofT \<mapsto> deallocate point a)\<rparr>))
      else (Inr (), g\<lparr>general := operator_delete point (general g)\<rparr>))"

section \<open>List\<close>

subsection \<open>Nodes and their allocator\<close>

text \<open>
  A \<^verbatim>\<open>Node*\<close> is a 64-bit address, \<open>0\<close> the null pointer. A node has the element and
  the two links; the element of a node whose storage was allocated but never
  constructed (the two sentinels) is \<open>None\<close>. Members \<^verbatim>\<open>name_\<close> of \<^verbatim>\<open>Node\<close> and
  \<^verbatim>\<open>List\<close> are written \<open>name_N\<close> and \<open>name_L\<close>.

  \<^verbatim>\<open>List\<close> takes its nodes from the node allocator it got by rebinding the template
  argument \<^verbatim>\<open>Allocator\<close> (\<^verbatim>\<open>std::allocator\<close>, \<^verbatim>\<open>FastAllocator\<close>: both without state
  of their own, so the members \<^verbatim>\<open>allocator_\<close> and \<^verbatim>\<open>node_allocator_\<close> carry nothing).
  The store holds the nodes that are allocated (\<open>cells\<close>) and the addresses the
  allocator can still hand out (\<open>avail\<close>): \<^verbatim>\<open>allocate(1)\<close> takes the first of them and
  throws \<^verbatim>\<open>std::bad_alloc\<close> when there is none, \<^verbatim>\<open>deallocate\<close> puts the address back
  in front, where the next allocation finds it. Fresh storage holds no element; its
  links are written before they are read.
\<close>

type_synonym ptr = "64 word"

record 'a Node =
  elem_N :: "'a option"
  "next" :: ptr
  prev :: ptr

record 'a node_store =
  cells :: "ptr \<Rightarrow> 'a Node option"
  avail :: "ptr list"

definition alloc_node :: "'a node_store \<Rightarrow> (error + ptr) \<times> 'a node_store" where
  "alloc_node m =
     (case avail m of
        [] \<Rightarrow> (Inl BadAlloc, m)
      | p # ps \<Rightarrow>
          (Inr p, m\<lparr>cells := (cells m)(p \<mapsto> \<lparr>elem_N = None, next = 0, prev = 0\<rparr>), avail := ps\<rparr>))"

definition dealloc_node :: "ptr \<Rightarrow> 'a node_store \<Rightarrow> 'a node_store" where
  "dealloc_node p m = m\<lparr>cells := (cells m)(p := None), avail := p # avail m\<rparr>"

text \<open>
  \<^verbatim>\<open>construct(p, value)\<close> runs \<^verbatim>\<open>Node(const T&)\<close>: it copies the element and sets
  both links to null. The copy constructor of \<open>T\<close> may throw: \<open>throws v\<close> says whether
  copying \<open>v\<close> does. \<^verbatim>\<open>destroy(p)\<close> ends the life of the element.
\<close>

definition construct :: "('a \<Rightarrow> bool) \<Rightarrow> ptr \<Rightarrow> 'a \<Rightarrow> 'a node_store \<Rightarrow> (error + unit) \<times> 'a node_store" where
  "construct throws p v m =
     (if throws v then (Inl CopyThrows, m)
      else (Inr (), m\<lparr>cells := (cells m)(p \<mapsto> \<lparr>elem_N = Some v, next = 0, prev = 0\<rparr>)\<rparr>))"

definition deref :: "'a node_store \<Rightarrow> ptr \<Rightarrow> 'a Node option" where
  "deref m p = (if p = 0 then None else cells m p)"

definition set_next :: "ptr \<Rightarrow> ptr \<Rightarrow> 'a node_store \<Rightarrow> 'a node_store" where
  "set_next p v m =
     (case cells m p of None \<Rightarrow> m | Some n \<Rightarrow> m\<lparr>cells := (cells m)(p \<mapsto> n\<lparr>next := v\<rparr>)\<rparr>)"

definition set_prev :: "ptr \<Rightarrow> ptr \<Rightarrow> 'a node_store \<Rightarrow> 'a node_store" where
  "set_prev p v m =
     (case cells m p of None \<Rightarrow> m | Some n \<Rightarrow> m\<lparr>cells := (cells m)(p \<mapsto> n\<lparr>prev := v\<rparr>)\<rparr>)"

definition destroy :: "ptr \<Rightarrow> 'a node_store \<Rightarrow> 'a node_store" where
  "destroy p m =
     (case cells m p of None \<Rightarrow> m | Some n \<Rightarrow> m\<lparr>cells := (cells m)(p \<mapsto> n\<lparr>elem_N := None\<rparr>)\<rparr>)"

subsection \<open>The list and its private members\<close>

record List =
  size_L :: size_t
  begin_L :: ptr
  end_L :: ptr

text \<open>\<^verbatim>\<open>List(const Allocator&)\<close>: the two sentinels.\<close>

definition List_ctor :: "'a node_store \<Rightarrow> (error + List) \<times> 'a node_store" where
  "List_ctor m =
     (case alloc_node m of
        (Inl e, m1) \<Rightarrow> (Inl e, m1)
      | (Inr b, m1) \<Rightarrow>
     (case alloc_node m1 of
        (Inl e, m2) \<Rightarrow> (Inl e, m2)
      | (Inr e, m2) \<Rightarrow>
          if deref m2 b = None \<or> deref m2 e = None then (Inl Undefined, m2)
          else
            let m3 = set_next b e m2;
                m4 = set_prev b 0 m3;
                m5 = set_prev e b m4;
                m6 = set_next e 0 m5
            in (Inr \<lparr>size_L = 0, begin_L = b, end_L = e\<rparr>, m6)))"

definition insert_before_L ::
  "('a \<Rightarrow> bool) \<Rightarrow> ptr \<Rightarrow> 'a \<Rightarrow> List \<times> 'a node_store \<Rightarrow> (error + unit) \<times> List \<times> 'a node_store" where
  "insert_before_L throws ptr v = (\<lambda>(L, m).
     case alloc_node m of
       (Inl e, m1) \<Rightarrow> (Inl e, L, m1)
     | (Inr newbie, m1) \<Rightarrow>
    (case construct throws newbie v m1 of
       (Inl e, m2) \<Rightarrow> (Inl e, L, m2)
     | (Inr _, m2) \<Rightarrow>
    (case deref m2 newbie of
       None \<Rightarrow> (Inl Undefined, L, m2)
     | Some _ \<Rightarrow>
         let m3 = set_next newbie ptr m2 in
    (case deref m3 ptr of
       None \<Rightarrow> (Inl Undefined, L, m3)
     | Some pn \<Rightarrow>
         let m4 = set_prev newbie (prev pn) m3 in
    (case deref m4 ptr of
       None \<Rightarrow> (Inl Undefined, L, m4)
     | Some pn1 \<Rightarrow>
    (case (if prev pn1 \<noteq> 0
           then (case deref m4 (prev pn1) of
                   None \<Rightarrow> Inl Undefined
                 | Some _ \<Rightarrow> Inr (L, set_next (prev pn1) newbie m4))
           else Inr (L\<lparr>begin_L := newbie\<rparr>, m4)) of
       Inl e \<Rightarrow> (Inl e, L, m4)
     | Inr (L5, m5) \<Rightarrow>
    (case deref m5 ptr of
       None \<Rightarrow> (Inl Undefined, L5, m5)
     | Some _ \<Rightarrow>
         (Inr (), L5\<lparr>size_L := size_L L5 + 1\<rparr>, set_prev ptr newbie m5))))))))"

definition erase_L ::
  "ptr \<Rightarrow> List \<times> 'a node_store \<Rightarrow> (error + unit) \<times> List \<times> 'a node_store" where
  "erase_L ptr = (\<lambda>(L, m).
     case deref m ptr of
       None \<Rightarrow> (Inl Undefined, L, m)
     | Some n \<Rightarrow>
    (case (if next n \<noteq> 0
           then (case deref m (next n) of
                   None \<Rightarrow> Inl Undefined
                 | Some _ \<Rightarrow> Inr (L, set_prev (next n) (prev n) m))
           else Inr (L\<lparr>end_L := prev n\<rparr>, m)) of
       Inl e \<Rightarrow> (Inl e, L, m)
     | Inr (L1, m1) \<Rightarrow>
    (case deref m1 ptr of
       None \<Rightarrow> (Inl Undefined, L1, m1)
     | Some n1 \<Rightarrow>
    (case (if prev n1 \<noteq> 0
           then (case deref m1 (prev n1) of
                   None \<Rightarrow> Inl Undefined
                 | Some _ \<Rightarrow> Inr (L1, set_next (prev n1) (next n1) m1))
           else Inr (L1\<lparr>begin_L := next n1\<rparr>, m1)) of
       Inl e \<Rightarrow> (Inl e, L1, m1)
     | Inr (L2, m2) \<Rightarrow>
    (case deref m2 ptr of
       None \<Rightarrow> (Inl Undefined, L2, m2)
     | Some n2 \<Rightarrow>
         if elem_N n2 = None then (Inl Undefined, L2, m2)
         else (Inr (), L2\<lparr>size_L := size_L L2 - 1\<rparr>, dealloc_node ptr (destroy ptr m2)))))))"

subsection \<open>Iterators\<close>

text \<open>
  A \<^verbatim>\<open>list_iterator\<close> is its \<^verbatim>\<open>ptr_\<close>. \<^verbatim>\<open>begin\<close> and \<^verbatim>\<open>end\<close> are keywords of
  Isabelle, \<open>insert\<close> is a constant of HOL: the public members of \<^verbatim>\<open>List\<close> are
  written \<open>List_name\<close>.
\<close>

definition List_size :: "List \<Rightarrow> size_t" where
  "List_size L = size_L L"

definition List_begin :: "List \<times> 'a node_store \<Rightarrow> error + ptr" where
  "List_begin = (\<lambda>(L, m). case deref m (begin_L L) of None \<Rightarrow> Inl Undefined | Some n \<Rightarrow> Inr (next n))"

definition List_end :: "List \<Rightarrow> ptr" where
  "List_end L = end_L L"

definition List_insert ::
  "('a \<Rightarrow> bool) \<Rightarrow> ptr \<Rightarrow> 'a \<Rightarrow> List \<times> 'a node_store \<Rightarrow> (error + ptr) \<times> List \<times> 'a node_store" where
  "List_insert throws iter v s =
     (case insert_before_L throws iter v s of
        (Inl e, s1) \<Rightarrow> (Inl e, s1)
      | (Inr _, L1, m1) \<Rightarrow>
          (case deref m1 iter of
             None \<Rightarrow> (Inl Undefined, L1, m1)
           | Some n \<Rightarrow> (Inr (next n), L1, m1)))"

definition List_erase ::
  "ptr \<Rightarrow> List \<times> 'a node_store \<Rightarrow> (error + ptr) \<times> List \<times> 'a node_store" where
  "List_erase iter = (\<lambda>(L, m).
     case deref m iter of
       None \<Rightarrow> (Inl Undefined, L, m)
     | Some n \<Rightarrow>
         (case erase_L iter (L, m) of
            (Inl e, s1) \<Rightarrow> (Inl e, s1)
          | (Inr _, s1) \<Rightarrow> (Inr (next n), s1)))"

subsection \<open>The public modifiers\<close>

definition List_pop_front :: "List \<times> 'a node_store \<Rightarrow> (error + unit) \<times> List \<times> 'a node_store" where
  "List_pop_front s =
     (if size_L (fst s) \<noteq> 0 then
        (case List_begin s of
           Inl e \<Rightarrow> (Inl e, s)
         | Inr it \<Rightarrow>
             (case List_erase it s of
                (Inl e, s1) \<Rightarrow> (Inl e, s1)
              | (Inr _, s1) \<Rightarrow> (Inr (), s1)))
      else (Inr (), s))"

definition List_pop_back :: "List \<times> 'a node_store \<Rightarrow> (error + unit) \<times> List \<times> 'a node_store" where
  "List_pop_back s =
     (if size_L (fst s) \<noteq> 0 then
        (case deref (snd s) (List_end (fst s)) of
           None \<Rightarrow> (Inl Undefined, s)
         | Some n \<Rightarrow>
             (case List_erase (prev n) s of
                (Inl e, s1) \<Rightarrow> (Inl e, s1)
              | (Inr _, s1) \<Rightarrow> (Inr (), s1)))
      else (Inr (), s))"

definition List_push_front ::
  "('a \<Rightarrow> bool) \<Rightarrow> 'a \<Rightarrow> List \<times> 'a node_store \<Rightarrow> (error + unit) \<times> List \<times> 'a node_store" where
  "List_push_front throws v s =
     (case List_begin s of
        Inl e \<Rightarrow> (Inl e, s)
      | Inr it \<Rightarrow>
          (case List_insert throws it v s of
             (Inl e, s1) \<Rightarrow> (Inl e, s1)
           | (Inr _, s1) \<Rightarrow> (Inr (), s1)))"

definition List_push_back ::
  "('a \<Rightarrow> bool) \<Rightarrow> 'a \<Rightarrow> List \<times> 'a node_store \<Rightarrow> (error + unit) \<times> List \<times> 'a node_store" where
  "List_push_back throws v s =
     (case List_insert throws (List_end (fst s)) v s of
        (Inl e, s1) \<Rightarrow> (Inl e, s1)
      | (Inr _, s1) \<Rightarrow> (Inr (), s1))"

subsection \<open>Copying, assignment and destruction\<close>

text \<open>
  The loop \<^verbatim>\<open>while (size_ > 0) pop_back();\<close> of the assignment operator and of the
  destructor. Every round that goes on has made \<^verbatim>\<open>size_\<close> smaller, so it ends.
\<close>

lemma erase_L_size:
  "erase_L p s = (Inr u, s1) \<Longrightarrow> size_L (fst s1) = size_L (fst s) - 1"
  by (cases s) (auto simp: erase_L_def split: option.splits if_splits sum.splits prod.splits)

lemma List_pop_back_size:
  "List_pop_back s = (Inr u, s1) \<Longrightarrow> size_L (fst s) \<noteq> 0 \<Longrightarrow> size_L (fst s1) = size_L (fst s) - 1"
  by (cases s) (auto simp: List_pop_back_def List_erase_def dest: erase_L_size
      split: option.splits if_splits sum.splits prod.splits)

function clear_loop :: "List \<times> 'a node_store \<Rightarrow> (error + unit) \<times> List \<times> 'a node_store" where
  "clear_loop s =
     (if size_L (fst s) \<noteq> 0 then
        (case List_pop_back s of
           (Inl e, s1) \<Rightarrow> (Inl e, s1)
         | (Inr _, s1) \<Rightarrow> clear_loop s1)
      else (Inr (), s))"
  by pat_completeness auto
termination
proof (relation "measure (\<lambda>s. unat (size_L (fst s)))")
  show "wf (measure (\<lambda>s. unat (size_L (fst s))))" by simp
next
  fix s :: "List \<times> 'a node_store" and x y x2 
  assume "size_L (fst s) \<noteq> 0" "(x, y) = List_pop_back s" "x = Inr x2"
  then have "size_L (fst y) = size_L (fst s) - 1" and "size_L (fst s) \<noteq> 0"
    using List_pop_back_size [of s x2 y] by simp_all
  then show "(y, s) \<in> measure (\<lambda>s. unat (size_L (fst s)))"
    by (simp add: unat_minus_one unat_gt_0)
qed

text \<open>
  \<^verbatim>\<open>copy_\<close>: the loop \<^verbatim>\<open>for (auto it = rhs.cbegin(); it != rhs.cend(); it++) push_back(*it);\<close>
  reads the nodes of \<open>rhs\<close> in the store that the \<^verbatim>\<open>push_back\<close> calls change. On a
  chain that never reaches \<^verbatim>\<open>rhs.cend()\<close> it does not end: the result is \<open>None\<close>.
\<close>

partial_function (option) copy_loop ::
  "('a \<Rightarrow> bool) \<Rightarrow> List \<Rightarrow> ptr \<Rightarrow> List \<times> 'a node_store \<Rightarrow>
     ((error + unit) \<times> List \<times> 'a node_store) option" where
  "copy_loop throws rhs it s =
     (if it = List_end rhs then Some (Inr (), s)
      else
        (case deref (snd s) it of
           None \<Rightarrow> Some (Inl Undefined, s)
         | Some n \<Rightarrow>
        (case elem_N n of
           None \<Rightarrow> Some (Inl Undefined, s)
         | Some x \<Rightarrow>
        (case List_push_back throws x s of
           (Inl e, s1) \<Rightarrow> Some (Inl e, s1)
         | (Inr _, s1) \<Rightarrow>
        (case deref (snd s1) it of
           None \<Rightarrow> Some (Inl Undefined, s1)
         | Some n1 \<Rightarrow> copy_loop throws rhs (next n1) s1)))))"


definition copy_L ::
  "('a \<Rightarrow> bool) \<Rightarrow> List \<Rightarrow> List \<times> 'a node_store \<Rightarrow>
     ((error + unit) \<times> List \<times> 'a node_store) option" where
  "copy_L throws rhs s =
     (case List_begin (rhs, snd s) of
        Inl e \<Rightarrow> Some (Inl e, s)
      | Inr it \<Rightarrow> copy_loop throws rhs it s)"


text \<open>\<^verbatim>\<open>~List()\<close>: the object is gone afterwards, the store remains.\<close>

definition List_dtor :: "List \<times> 'a node_store \<Rightarrow> (error + unit) \<times> 'a node_store" where
  "List_dtor s =
     (case clear_loop s of
        (Inl e, L1, m1) \<Rightarrow> (Inl e, m1)
      | (Inr _, L1, m1) \<Rightarrow> (Inr (), dealloc_node (end_L L1) (dealloc_node (begin_L L1) m1)))"

text \<open>
  \<^verbatim>\<open>List(const List&)\<close> delegates to \<^verbatim>\<open>List(const Allocator&)\<close> and then copies. An
  exception that leaves the body after the delegation has completed runs the
  destructor of the new object.
\<close>

definition List_copy_ctor ::
  "('a \<Rightarrow> bool) \<Rightarrow> List \<Rightarrow> 'a node_store \<Rightarrow> ((error + List) \<times> 'a node_store) option" where
  "List_copy_ctor throws rhs m =
     (case List_ctor m of
        (Inl e, m1) \<Rightarrow> Some (Inl e, m1)
      | (Inr L, m1) \<Rightarrow>
          (case copy_L throws rhs (L, m1) of
             None \<Rightarrow> None
           | Some (Inl e, s2) \<Rightarrow> Some (Inl e, snd (List_dtor s2))
           | Some (Inr _, L2, m2) \<Rightarrow> Some (Inr L2, m2)))"

subsection \<open>Clients of the list\<close>

text \<open>
  Traversals, as a client writes them. Forward:
  \<^verbatim>\<open>for (auto it = l.begin(); it != l.end(); ++it) out.push_back(*it);\<close>
  Backward, with \<^verbatim>\<open>std::reverse_iterator\<close> over the list's iterator:
  \<^verbatim>\<open>for (auto it = l.rbegin(); it != l.rend(); ++it) out.push_back(*it);\<close>
  where a reverse iterator holds the iterator \<open>base\<close>, \<^verbatim>\<open>*it\<close> is \<^verbatim>\<open>*--tmp\<close> for a copy
  \<open>tmp\<close> of \<open>base\<close>, and \<^verbatim>\<open>++it\<close> is \<^verbatim>\<open>--base\<close>. Reading the element of a node that
  holds none is undefined.
\<close>

partial_function (option) collect ::
  "'a node_store \<Rightarrow> ptr \<Rightarrow> ptr \<Rightarrow> 'a list \<Rightarrow> (error + 'a list) option" where
  "collect m it e out =
     (if it = e then Some (Inr out)
      else
        (case deref m it of
           None \<Rightarrow> Some (Inl Undefined)
         | Some n \<Rightarrow>
        (case elem_N n of
           None \<Rightarrow> Some (Inl Undefined)
         | Some x \<Rightarrow> collect m (next n) e (out @ [x]))))"


partial_function (option) rcollect ::
  "'a node_store \<Rightarrow> ptr \<Rightarrow> ptr \<Rightarrow> 'a list \<Rightarrow> (error + 'a list) option" where
  "rcollect m base e out =
     (if base = e then Some (Inr out)
      else
        (case deref m base of
           None \<Rightarrow> Some (Inl Undefined)
         | Some n \<Rightarrow>
        (case deref m (prev n) of
           None \<Rightarrow> Some (Inl Undefined)
         | Some pn \<Rightarrow>
        (case elem_N pn of
           None \<Rightarrow> Some (Inl Undefined)
         | Some x \<Rightarrow> rcollect m (prev n) e (out @ [x])))))"

definition List_rbegin :: "List \<Rightarrow> ptr" where
  "List_rbegin L = end_L L"

definition List_rend :: "List \<times> 'a node_store \<Rightarrow> error + ptr" where
  "List_rend = (\<lambda>(L, m). case deref m (begin_L L) of None \<Rightarrow> Inl Undefined | Some n \<Rightarrow> Inr (next n))"

definition forward :: "List \<times> 'a node_store \<Rightarrow> (error + 'a list) option" where
  "forward s =
     (case List_begin s of
        Inl e \<Rightarrow> Some (Inl e)
      | Inr it \<Rightarrow> collect (snd s) it (List_end (fst s)) [])"

definition backward :: "List \<times> 'a node_store \<Rightarrow> (error + 'a list) option" where
  "backward s =
     (case List_rend s of
        Inl e \<Rightarrow> Some (Inl e)
      | Inr e \<Rightarrow> rcollect (snd s) (List_rbegin (fst s)) e [])"

text \<open>
  A client that changes one list. A position is given by the number of \<^verbatim>\<open>++\<close> steps
  from \<^verbatim>\<open>begin()\<close>. The client counts the insertions that returned and the removals
  that gave a node back to the allocator; an insertion that ends in an exception is
  caught and the client goes on. A call whose behaviour is undefined ends the run
  (\<open>None\<close>).
\<close>

fun advance :: "'a node_store \<Rightarrow> ptr \<Rightarrow> nat \<Rightarrow> error + ptr" where
  "advance m it 0 = Inr it"
| "advance m it (Suc k) =
     (case deref m it of None \<Rightarrow> Inl Undefined | Some n \<Rightarrow> advance m (next n) k)"

datatype 'a list_op =
  PushFront 'a | PushBack 'a | InsertAt nat 'a | PopFront | PopBack | EraseAt nat

record 'a client =
  lst :: List
  mem :: "'a node_store"
  inserted :: nat
  removed :: nat

definition position :: "List \<times> 'a node_store \<Rightarrow> nat \<Rightarrow> error + ptr" where
  "position s k = (case List_begin s of Inl e \<Rightarrow> Inl e | Inr it \<Rightarrow> advance (snd s) it k)"

definition call_op ::
  "('a \<Rightarrow> bool) \<Rightarrow> 'a list_op \<Rightarrow> List \<times> 'a node_store \<Rightarrow> (error + unit) \<times> List \<times> 'a node_store" where
  "call_op throws x s =
     (case x of
        PushFront v \<Rightarrow> List_push_front throws v s
      | PushBack v \<Rightarrow> List_push_back throws v s
      | InsertAt k v \<Rightarrow>
          (case position s k of
             Inl e \<Rightarrow> (Inl e, s)
           | Inr it \<Rightarrow>
               (case List_insert throws it v s of (Inl e, s1) \<Rightarrow> (Inl e, s1) | (Inr _, s1) \<Rightarrow> (Inr (), s1)))
      | PopFront \<Rightarrow> List_pop_front s
      | PopBack \<Rightarrow> List_pop_back s
      | EraseAt k \<Rightarrow>
          (case position s k of
             Inl e \<Rightarrow> (Inl e, s)
           | Inr it \<Rightarrow>
               (case List_erase it s of (Inl e, s1) \<Rightarrow> (Inl e, s1) | (Inr _, s1) \<Rightarrow> (Inr (), s1))))"

definition is_insertion :: "'a list_op \<Rightarrow> bool" where
  "is_insertion x = (case x of PushFront _ \<Rightarrow> True | PushBack _ \<Rightarrow> True | InsertAt _ _ \<Rightarrow> True | _ \<Rightarrow> False)"

definition list_step :: "('a \<Rightarrow> bool) \<Rightarrow> 'a list_op \<Rightarrow> 'a client \<Rightarrow> 'a client option" where
  "list_step throws x st =
     (case call_op throws x (lst st, mem st) of
        (Inl Undefined, s1) \<Rightarrow> None
      | (Inl e, L1, m1) \<Rightarrow> Some (st\<lparr>lst := L1, mem := m1\<rparr>)
      | (Inr _, L1, m1) \<Rightarrow>
          Some (st\<lparr>lst := L1, mem := m1,
                  inserted := inserted st + (if is_insertion x then 1 else 0),
                  removed := removed st + (if length (avail m1) > length (avail (mem st)) then 1 else 0)\<rparr>))"

fun list_run :: "('a \<Rightarrow> bool) \<Rightarrow> 'a list_op list \<Rightarrow> 'a client \<Rightarrow> 'a client option" where
  "list_run throws [] st = Some st"
| "list_run throws (x # xs) st =
     (case list_step throws x st of None \<Rightarrow> None | Some st1 \<Rightarrow> list_run throws xs st1)"

subsection \<open>What a well-formed list is\<close>

text \<open>
  \<open>path f c x as y\<close>: starting at \<open>x\<close> and following the link \<open>f\<close>, one visits the
  nodes \<open>as\<close> in this order and arrives at \<open>y\<close>. A list with the live nodes \<open>ps\<close> and
  the elements \<open>xs\<close> is well formed when following \<^verbatim>\<open>next\<close> from the front sentinel
  visits the front sentinel, \<open>ps\<close> and the back sentinel and ends at null, following
  \<^verbatim>\<open>prev\<close> from the back sentinel visits the same nodes in reverse order, the nodes
  are pairwise different, the sentinels hold no element, the live nodes hold \<open>xs\<close>,
  and \<^verbatim>\<open>size_\<close> is their number.
  The allocator is sound for a set of nodes when the addresses it can hand out are
  pairwise different, not null, and none of these nodes.
\<close>

primrec path :: "('a Node \<Rightarrow> ptr) \<Rightarrow> (ptr \<Rightarrow> 'a Node option) \<Rightarrow> ptr \<Rightarrow> ptr list \<Rightarrow> ptr \<Rightarrow> bool" where
  "path f c x [] y \<longleftrightarrow> x = y"
| "path f c x (a # as) y \<longleftrightarrow>
     x = a \<and> a \<noteq> 0 \<and> (case c a of None \<Rightarrow> False | Some n \<Rightarrow> path f c (f n) as y)"

definition elem_at :: "(ptr \<Rightarrow> 'a Node option) \<Rightarrow> ptr \<Rightarrow> 'a option" where
  "elem_at c p = (case c p of None \<Rightarrow> None | Some n \<Rightarrow> elem_N n)"

definition nodes_of :: "List \<Rightarrow> ptr list \<Rightarrow> ptr list" where
  "nodes_of L ps = begin_L L # ps @ [end_L L]"

definition is_list :: "'a node_store \<Rightarrow> List \<Rightarrow> ptr list \<Rightarrow> 'a list \<Rightarrow> bool" where
  "is_list m L ps xs \<longleftrightarrow>
     path next (cells m) (begin_L L) (nodes_of L ps) 0 \<and>
     path prev (cells m) (end_L L) (rev (nodes_of L ps)) 0 \<and>
     distinct (nodes_of L ps) \<and>
     elem_at (cells m) (begin_L L) = None \<and>
     elem_at (cells m) (end_L L) = None \<and>
     map (elem_at (cells m)) ps = map Some xs \<and>
     size_L L = word_of_nat (length xs)"

definition alloc_ok :: "'a node_store \<Rightarrow> ptr list \<Rightarrow> bool" where
  "alloc_ok m ns \<longleftrightarrow> distinct (avail m) \<and> 0 \<notin> set (avail m) \<and> set (avail m) \<inter> set ns = {}"

subsection \<open>What the operations do to the elements\<close>

text \<open>
  The sequence of elements after an operation of the client, as a function of the
  sequence before it: what \<^verbatim>\<open>push_front\<close>, \<^verbatim>\<open>push_back\<close>, \<^verbatim>\<open>insert\<close> before the position
  \<open>k\<close>, \<^verbatim>\<open>pop_front\<close>, \<^verbatim>\<open>pop_back\<close> and \<^verbatim>\<open>erase\<close> of the element at position \<open>k\<close> mean for
  a sequence. The pops leave the empty sequence as it is; an insertion at a position
  beyond \<^verbatim>\<open>end()\<close> and an erasure at a position that holds no element have no
  meaning (\<open>None\<close>).
\<close>

fun abs_op :: "'a list_op \<Rightarrow> 'a list \<Rightarrow> 'a list option" where
  "abs_op (PushFront v) xs = Some (v # xs)"
| "abs_op (PushBack v) xs = Some (xs @ [v])"
| "abs_op (InsertAt k v) xs = (if k \<le> length xs then Some (take k xs @ v # drop k xs) else None)"
| "abs_op PopFront xs = Some (tl xs)"
| "abs_op PopBack xs = Some (butlast xs)"
| "abs_op (EraseAt k) xs = (if k < length xs then Some (take k xs @ drop (Suc k) xs) else None)"

text \<open>
  \<open>evolves m L ps m' L' ps'\<close>: the list \<open>L\<close> with the live nodes \<open>ps\<close> in the store \<open>m\<close>
  has become \<open>L'\<close> with the live nodes \<open>ps'\<close> in \<open>m'\<close> by calls of its own members. The
  sentinels are the same, the nodes of the list and the addresses the allocator can
  hand out have only been exchanged among themselves, and every other cell of the
  store is as it was.

  \<open>counts\<close>: the number of elements after a call that returned, against the number
  before it, where a call has removed an element when the allocator got a node back.

  \<open>refines x r m L ps xs m' L'\<close>: the call \<open>x\<close> on the well-formed list \<open>L\<close> with the
  elements \<open>xs\<close>, which gave the result \<open>r\<close>, the list \<open>L'\<close> and the store \<open>m'\<close>, has left
  a well-formed list; if it returned, its elements are those that \<open>abs_op\<close> says; if
  it threw, its elements are \<open>xs\<close>.
\<close>

definition evolves ::
  "'a node_store \<Rightarrow> List \<Rightarrow> ptr list \<Rightarrow> 'a node_store \<Rightarrow> List \<Rightarrow> ptr list \<Rightarrow> bool" where
  "evolves m L ps m' L' ps' \<longleftrightarrow>
     begin_L L' = begin_L L \<and> end_L L' = end_L L \<and>
     set (nodes_of L' ps') \<union> set (avail m') \<subseteq> set (nodes_of L ps) \<union> set (avail m) \<and>
     (\<forall>p. p \<notin> set (nodes_of L ps) \<union> set (avail m) \<longrightarrow> cells m' p = cells m p)"

definition counts :: "'a list_op \<Rightarrow> 'a node_store \<Rightarrow> 'a node_store \<Rightarrow> 'a list \<Rightarrow> 'a list \<Rightarrow> bool" where
  "counts x m m' xs xs' \<longleftrightarrow>
     length xs' + (if length (avail m) < length (avail m') then 1 else 0) =
     length xs + (if is_insertion x then 1 else 0)"

definition refines ::
  "'a list_op \<Rightarrow> (error + unit) \<Rightarrow> 'a node_store \<Rightarrow> List \<Rightarrow> ptr list \<Rightarrow> 'a list \<Rightarrow>
     'a node_store \<Rightarrow> List \<Rightarrow> bool" where
  "refines x r m L ps xs m' L' \<longleftrightarrow>
     (\<exists>ps' xs'. is_list m' L' ps' xs' \<and> alloc_ok m' (nodes_of L' ps') \<and>
        evolves m L ps m' L' ps' \<and>
        (case r of
           Inr _ \<Rightarrow> abs_op x xs = Some xs' \<and> counts x m m' xs xs'
         | Inl e \<Rightarrow> xs' = xs))"

text \<open>
  \<open>copied throws n ys\<close>: how many elements of \<open>ys\<close> the loop of \<^verbatim>\<open>copy_\<close> appends when the
  allocator can hand out \<open>n\<close> addresses: those before the first element whose copy
  throws, and not more than \<open>n\<close>.
\<close>

definition copied :: "('a \<Rightarrow> bool) \<Rightarrow> nat \<Rightarrow> 'a list \<Rightarrow> nat" where
  "copied throws n ys = min (length (takeWhile (\<lambda>y. \<not> throws y) ys)) n"

section \<open>Properties of the pool\<close>

subsection \<open>The four ways through \<open>allocate\<close>\<close>

lemma unat_mult_small:
  fixes a b :: size_t
  assumes "unat a * unat b < 2 ^ 64"
  shows "unat (a * b) = unat a * unat b"
  using assms by (simp add: unat_mult_lem [THEN iffD1])

lemma unat_succ_small:
  fixes a b :: size_t
  assumes "unat a < unat b"
  shows "unat (a + 1) = unat a + 1"
proof -
  have "unat b < 2 ^ LENGTH(64)" by (rule unsigned_less)
  with assms have "unat a + unat (1 :: size_t) < 2 ^ LENGTH(64)" by simp
  then show ?thesis by (simp add: unat_add_lem [THEN iffD1])
qed

subsection \<open>The invariant is kept\<close>

lemma ctor_inv:
  assumes "FixedAllocator_ctor B True h0 = (Inr a0, h1)"
  shows "pool_inv B 0 \<lparr>pool = a0, sys = h1, outstanding = []\<rparr>"
  using assms
  by (auto simp: FixedAllocator_ctor_def operator_new_def pool_inv_def)

lemma allocate_pop:
  "returned_FA a \<noteq> [] \<Longrightarrow>
   allocate B ok (a, h) = (Inr (last (returned_FA a)), a\<lparr>returned_FA := butlast (returned_FA a)\<rparr>, h)"
  by (simp add: allocate_def)

lemma allocate_fresh:
  "returned_FA a = [] \<Longrightarrow> size_FA a \<noteq> capacity_FA a \<Longrightarrow> chunks_FA a \<noteq> [] \<Longrightarrow>
   allocate B ok (a, h) =
     (Inr (VPtr (region (last (chunks_FA a))) (offset (last (chunks_FA a)) + size_FA a * B)),
      a\<lparr>size_FA := size_FA a + 1\<rparr>, h)"
  by (simp add: allocate_def Let_def)

lemma allocate_grow:
  "returned_FA a = [] \<Longrightarrow> size_FA a = capacity_FA a \<Longrightarrow>
   allocate B True (a, h) =
     (Inr (VPtr (length (regions h)) 0),
      a\<lparr>capacity_FA := capacity_FA a * 2,
        chunks_FA := chunks_FA a @ [VPtr (length (regions h)) 0], size_FA := 1\<rparr>,
      h\<lparr>regions := regions h @ [unat (capacity_FA a * 2 * B)]\<rparr>)"
  by (simp add: allocate_def allocate_memory_FA_def operator_new_def Let_def)

lemma allocate_fail:
  "returned_FA a = [] \<Longrightarrow> size_FA a = capacity_FA a \<Longrightarrow>
   allocate B False (a, h) = (Inl BadAlloc, a\<lparr>capacity_FA := capacity_FA a * 2\<rparr>, h)"
  by (simp add: allocate_def allocate_memory_FA_def operator_new_def)


lemma step_release:
  assumes "pool_inv B k st" "p \<in> set (outstanding st)"
  shows "pool_inv B (Suc k) (st\<lparr>pool := deallocate p (pool st), outstanding := remove1 p (outstanding st)\<rparr>)"
proof -
  have d: "distinct (outstanding st @ returned_FA (pool st))"
    using assms(1) by (simp add: pool_inv_def Let_def)
  have "distinct (remove1 p (outstanding st) @ returned_FA (pool st) @ [p])"
    using d assms(2) by auto
  moreover have "set (remove1 p (outstanding st) @ returned_FA (pool st) @ [p])
      = set (outstanding st @ returned_FA (pool st))"
    using d assms(2) by auto
  ultimately show ?thesis
    using assms(1) unfolding pool_inv_def Let_def deallocate_def
    by (simp del: set_append distinct_append) 
qed

lemma step_pop:
  assumes inv: "pool_inv B k st" and ne: "returned_FA (pool st) \<noteq> []"
  shows "pool_inv B (Suc k) (st\<lparr>pool := (pool st)\<lparr>returned_FA := butlast (returned_FA (pool st))\<rparr>,
           outstanding := last (returned_FA (pool st)) # outstanding st\<rparr>)"
proof -
  let ?r = "returned_FA (pool st)"
  have r: "?r = butlast ?r @ [last ?r]" using ne by simp
  have d: "distinct (outstanding st @ butlast ?r @ [last ?r])"
    using inv r by (simp add: pool_inv_def Let_def)
  have "distinct ((last ?r # outstanding st) @ butlast ?r)"
    using d by auto
  moreover have "set ((last ?r # outstanding st) @ butlast ?r) = set (outstanding st @ ?r)"
    by (subst (3) r) auto
  ultimately show ?thesis
    using inv unfolding pool_inv_def Let_def
    by (simp del: set_append distinct_append append_Cons)
qed

lemma pop_not_outstanding:
  assumes inv: "pool_inv B k st" and ne: "returned_FA (pool st) \<noteq> []"
  shows "last (returned_FA (pool st)) \<notin> set (outstanding st)"
proof -
  have "last (returned_FA (pool st)) \<in> set (returned_FA (pool st))" using ne by simp
  moreover have "distinct (outstanding st @ returned_FA (pool st))"
    using inv by (simp add: pool_inv_def Let_def)
  ultimately show ?thesis by auto
qed


lemma step_fresh:
  assumes inv: "pool_inv B k st" and e: "returned_FA (pool st) = []"
    and ne: "size_FA (pool st) \<noteq> capacity_FA (pool st)"
    and B: "B \<noteq> 0" and bound: "(32 + 2 * k) * unat B < 2 ^ 64"
  defines "back \<equiv> last (chunks_FA (pool st))"
  defines "p \<equiv> VPtr (region back) (offset back + size_FA (pool st) * B)"
  shows "pool_inv B (Suc k) (st\<lparr>pool := (pool st)\<lparr>size_FA := size_FA (pool st) + 1\<rparr>,
           outstanding := p # outstanding st\<rparr>)"
    and "p \<notin> set (outstanding st)"
    and "unat B dvd unat (offset p)"
    and "\<exists>c \<in> set (chunks_FA (pool st)). region c = region p"
proof -
  let ?a = "pool st"
  have ch: "chunks_FA ?a \<noteq> []" using inv by (simp add: pool_inv_def Let_def)
  then have bk: "back \<in> set (chunks_FA ?a)" by (simp add: back_def)
  then have off0: "offset back = 0" using inv by (simp add: pool_inv_def Let_def)
  have le: "unat (size_FA ?a) \<le> unat (capacity_FA ?a)"
    and capk: "unat (capacity_FA ?a) \<le> 32 + 2 * k" and szk: "unat (size_FA ?a) \<le> k"
    using inv by (simp_all add: pool_inv_def Let_def)
  have lt: "unat (size_FA ?a) < unat (capacity_FA ?a)"
    using le ne by (simp add: word_unat_eq_iff)
  have suc: "unat (size_FA ?a + 1) = unat (size_FA ?a) + 1"
    using lt by (rule unat_succ_small)
  have "unat (size_FA ?a) * unat B \<le> (32 + 2 * k) * unat B"
    using lt capk by (intro mult_le_mono1) simp
  then have "unat (size_FA ?a) * unat B < 2 ^ 64" using bound by (rule le_less_trans)
  then have mul: "unat (size_FA ?a * B) = unat (size_FA ?a) * unat B"
    by (rule unat_mult_small)
  have offp: "unat (offset p) = unat (size_FA ?a) * unat B"
    by (simp add: p_def off0 mul)
  have regp: "region p = region back" by (simp add: p_def)
  have Bpos: "0 < unat B" using B by (simp add: unat_gt_0)
  have old: "\<forall>q \<in> set (outstanding st @ returned_FA ?a).
      (\<exists>c \<in> set (chunks_FA ?a). region c = region q) \<and> unat B dvd unat (offset q) \<and>
      (region q = region back \<longrightarrow> unat (offset q) < unat (size_FA ?a) * unat B)"
    using inv by (simp add: pool_inv_def Let_def back_def)
  have dist: "distinct (outstanding st @ returned_FA ?a)"
    using inv by (simp add: pool_inv_def Let_def)
  have notin: "p \<notin> set (outstanding st @ returned_FA ?a)"
  proof
    assume "p \<in> set (outstanding st @ returned_FA ?a)"
    with old regp have "unat (offset p) < unat (size_FA ?a) * unat B" by blast
    with offp show False by simp
  qed
  show "p \<notin> set (outstanding st)" using notin by simp
  show "unat B dvd unat (offset p)" by (simp add: offp)
  show "\<exists>c \<in> set (chunks_FA (pool st)). region c = region p" using bk regp by auto
  have new: "\<forall>q \<in> set ((p # outstanding st) @ returned_FA ?a).
      (\<exists>c \<in> set (chunks_FA ?a). region c = region q) \<and> unat B dvd unat (offset q) \<and>
      (region q = region back \<longrightarrow> unat (offset q) < (unat (size_FA ?a) + 1) * unat B)"
  proof
    fix q assume "q \<in> set ((p # outstanding st) @ returned_FA ?a)"
    then consider "q = p" | "q \<in> set (outstanding st @ returned_FA ?a)" by auto
    then show "(\<exists>c \<in> set (chunks_FA ?a). region c = region q) \<and> unat B dvd unat (offset q) \<and>
      (region q = region back \<longrightarrow> unat (offset q) < (unat (size_FA ?a) + 1) * unat B)"
    proof cases
      case 1
      then show ?thesis using bk regp offp Bpos by auto
    next
      case 2
      with old have "(\<exists>c \<in> set (chunks_FA ?a). region c = region q) \<and> unat B dvd unat (offset q) \<and>
        (region q = region back \<longrightarrow> unat (offset q) < unat (size_FA ?a) * unat B)" by blast
      then show ?thesis by auto
    qed
  qed
  have d2: "distinct ((p # outstanding st) @ returned_FA ?a)"
    using dist notin by simp
  show "pool_inv B (Suc k) (st\<lparr>pool := (pool st)\<lparr>size_FA := size_FA (pool st) + 1\<rparr>,
           outstanding := p # outstanding st\<rparr>)"
    unfolding pool_inv_def Let_def
    using inv new d2 lt szk capk suc
    by (simp add: pool_inv_def Let_def back_def del: set_append distinct_append append_Cons)
qed


lemma double_capacity:
  assumes inv: "pool_inv B k st" and full: "size_FA (pool st) = capacity_FA (pool st)"
    and B: "B \<noteq> 0" and bound: "(32 + 2 * k) * unat B < 2 ^ 64"
  shows "unat (capacity_FA (pool st) * 2) = 2 * unat (capacity_FA (pool st))"
    and "unat (capacity_FA (pool st)) \<le> k"
proof -
  have szk: "unat (size_FA (pool st)) \<le> k" using inv by (simp add: pool_inv_def Let_def)
  then show ck: "unat (capacity_FA (pool st)) \<le> k" using full by simp
  have "0 < unat B" using B by (simp add: unat_gt_0)
  then have "32 + 2 * k \<le> (32 + 2 * k) * unat B" by simp
  then have "32 + 2 * k < 2 ^ 64" using bound by (rule le_less_trans)
  then have "unat (capacity_FA (pool st)) * unat (2 :: size_t) < 2 ^ 64" using ck by simp
  then have "unat (capacity_FA (pool st) * 2) = unat (capacity_FA (pool st)) * unat (2 :: size_t)"
    by (rule unat_mult_small)
  then show "unat (capacity_FA (pool st) * 2) = 2 * unat (capacity_FA (pool st))" by simp
qed

lemma step_fail:
  assumes inv: "pool_inv B k st" and full: "size_FA (pool st) = capacity_FA (pool st)"
    and B: "B \<noteq> 0" and bound: "(32 + 2 * k) * unat B < 2 ^ 64"
  shows "pool_inv B (Suc k) (st\<lparr>pool := (pool st)\<lparr>capacity_FA := capacity_FA (pool st) * 2\<rparr>\<rparr>)"
  using inv double_capacity [OF inv full B bound] full
  by (simp add: pool_inv_def Let_def)

lemma step_grow:
  assumes inv: "pool_inv B k st" and full: "size_FA (pool st) = capacity_FA (pool st)"
    and B: "B \<noteq> 0" and bound: "(32 + 2 * k) * unat B < 2 ^ 64"
  defines "n \<equiv> length (regions (sys st))"
  shows "pool_inv B (Suc k)
     (st\<lparr>pool := (pool st)\<lparr>capacity_FA := capacity_FA (pool st) * 2,
             chunks_FA := chunks_FA (pool st) @ [VPtr n 0], size_FA := 1\<rparr>,
         sys := (sys st)\<lparr>regions := regions (sys st) @ [bytes]\<rparr>,
         outstanding := VPtr n 0 # outstanding st\<rparr>)"
    and "VPtr n 0 \<notin> set (outstanding st)"
proof -
  let ?a = "pool st"
  note dc = double_capacity [OF inv full B bound]
  have Bpos: "0 < unat B" using B by (simp add: unat_gt_0)
  have cpos: "0 < unat (capacity_FA ?a)" using inv by (simp add: pool_inv_def Let_def)
  have chunks: "\<forall>c \<in> set (chunks_FA ?a). offset c = 0 \<and> region c < n"
    using inv by (simp add: pool_inv_def Let_def n_def)
  have old: "\<forall>q \<in> set (outstanding st @ returned_FA ?a).
      (\<exists>c \<in> set (chunks_FA ?a). region c = region q) \<and> unat B dvd unat (offset q)"
    using inv by (simp add: pool_inv_def Let_def)
  have oldr: "\<forall>q \<in> set (outstanding st @ returned_FA ?a). region q < n"
    using old chunks by metis
  have dist: "distinct (outstanding st @ returned_FA ?a)"
    using inv by (simp add: pool_inv_def Let_def)
  have notin: "VPtr n 0 \<notin> set (outstanding st @ returned_FA ?a)"
    using oldr by fastforce
  then show "VPtr n 0 \<notin> set (outstanding st)" by simp
  have d2: "distinct ((VPtr n 0 # outstanding st) @ returned_FA ?a)"
    using dist notin by simp
  have new: "\<forall>q \<in> set ((VPtr n 0 # outstanding st) @ returned_FA ?a).
      (\<exists>c \<in> set (chunks_FA ?a @ [VPtr n 0]). region c = region q) \<and> unat B dvd unat (offset q) \<and>
      (region q = n \<longrightarrow> unat (offset q) < unat B)"
  proof
    fix q assume "q \<in> set ((VPtr n 0 # outstanding st) @ returned_FA ?a)"
    then consider "q = VPtr n 0" | "q \<in> set (outstanding st @ returned_FA ?a)" by auto
    then show "(\<exists>c \<in> set (chunks_FA ?a @ [VPtr n 0]). region c = region q) \<and> unat B dvd unat (offset q) \<and>
      (region q = n \<longrightarrow> unat (offset q) < unat B)"
    proof cases
      case 1
      then show ?thesis using Bpos by simp
    next
      case 2
      then have "region q < n" using oldr by blast
      moreover have "(\<exists>c \<in> set (chunks_FA ?a). region c = region q) \<and> unat B dvd unat (offset q)"
        using old 2 by blast
      ultimately show ?thesis by auto
    qed
  qed
  have ch2: "\<forall>c \<in> set (chunks_FA ?a @ [VPtr n 0]). offset c = 0 \<and> region c < Suc n"
    using chunks by (auto simp: less_Suc_eq)
  show "pool_inv B (Suc k)
     (st\<lparr>pool := (pool st)\<lparr>capacity_FA := capacity_FA (pool st) * 2,
             chunks_FA := chunks_FA (pool st) @ [VPtr n 0], size_FA := 1\<rparr>,
         sys := (sys st)\<lparr>regions := regions (sys st) @ [bytes]\<rparr>,
         outstanding := VPtr n 0 # outstanding st\<rparr>)"
    unfolding pool_inv_def Let_def
    using new d2 ch2 dc cpos
    by (simp add: n_def del: set_append distinct_append append_Cons)
qed


lemma acquire_inv:
  assumes inv: "pool_inv B k st" and B: "B \<noteq> 0" and bound: "(32 + 2 * k) * unat B < 2 ^ 64"
    and al: "allocate B ok (pool st, sys st) = (r, a', h')"
  shows "pool_inv B (Suc k)
           (case r of Inl e \<Rightarrow> st\<lparr>pool := a', sys := h'\<rparr>
            | Inr p \<Rightarrow> st\<lparr>pool := a', sys := h', outstanding := p # outstanding st\<rparr>)"
    and "r = Inr p \<Longrightarrow> p \<notin> set (outstanding st) \<and> unat B dvd unat (offset p) \<and>
           (\<exists>c \<in> set (chunks_FA a'). region c = region p)"
proof -
  let ?a = "pool st"
  have ch: "chunks_FA ?a \<noteq> []" using inv by (simp add: pool_inv_def Let_def)
  have both: "pool_inv B (Suc k)
           (case r of Inl e \<Rightarrow> st\<lparr>pool := a', sys := h'\<rparr>
            | Inr p \<Rightarrow> st\<lparr>pool := a', sys := h', outstanding := p # outstanding st\<rparr>) \<and>
      (\<forall>p. r = Inr p \<longrightarrow> p \<notin> set (outstanding st) \<and> unat B dvd unat (offset p) \<and>
           (\<exists>c \<in> set (chunks_FA a'). region c = region p))"
  proof (cases "returned_FA ?a = []")
    case False
    have in_ret: "last (returned_FA ?a) \<in> set (outstanding st @ returned_FA ?a)"
      using False by simp
    have "(\<exists>c \<in> set (chunks_FA ?a). region c = region (last (returned_FA ?a))) \<and>
        unat B dvd unat (offset (last (returned_FA ?a)))"
      using inv in_ret unfolding pool_inv_def Let_def by blast
    then show ?thesis
      using al step_pop [OF inv False] pop_not_outstanding [OF inv False]
      by (auto simp: allocate_pop [OF False])
  next
    case True
    show ?thesis
    proof (cases "size_FA ?a = capacity_FA ?a")
      case False
      show ?thesis
        using al step_fresh [OF inv True False B bound]
        by (auto simp: allocate_fresh [OF True False ch])
    next
      case full: True
      show ?thesis
      proof (cases ok)
        case True
        show ?thesis
          using al step_grow [OF inv full B bound] \<open>ok\<close>
          by (auto simp: allocate_grow [OF \<open>returned_FA ?a = []\<close> full])
      next
        case False
        show ?thesis
          using al step_fail [OF inv full B bound] False
          by (auto simp: allocate_fail [OF \<open>returned_FA ?a = []\<close> full])
      qed
    qed
  qed
  show "pool_inv B (Suc k)
           (case r of Inl e \<Rightarrow> st\<lparr>pool := a', sys := h'\<rparr>
            | Inr p \<Rightarrow> st\<lparr>pool := a', sys := h', outstanding := p # outstanding st\<rparr>)"
    using both by blast
  show "r = Inr p \<Longrightarrow> p \<notin> set (outstanding st) \<and> unat B dvd unat (offset p) \<and>
           (\<exists>c \<in> set (chunks_FA a'). region c = region p)"
    using both by blast
qed

lemma step_inv:
  assumes inv: "pool_inv B k st" and B: "B \<noteq> 0" and bound: "(32 + 2 * k) * unat B < 2 ^ 64"
    and st: "pool_step B x st = Some st'"
  shows "pool_inv B (Suc k) st'"
proof (cases x)
  case (Acquire ok)
  obtain r a' h' where al: "allocate B ok (pool st, sys st) = (r, a', h')"
    by (cases "allocate B ok (pool st, sys st)") auto
  show ?thesis
    using acquire_inv(1) [OF inv B bound al] st Acquire al
    by (cases r) auto
next
  case (Release p)
  then show ?thesis using st step_release [OF inv] by (auto split: if_splits)
qed

lemma run_inv:
  assumes "pool_inv B k st" "B \<noteq> 0" "(32 + 2 * (k + length ops)) * unat B < 2 ^ 64"
    "pool_run B ops st = Some st'"
  shows "pool_inv B (k + length ops) st'"
  using assms
proof (induction ops arbitrary: k st)
  case Nil
  then show ?case by simp
next
  case (Cons x xs)
  from Cons.prems(4) obtain st1 where s1: "pool_step B x st = Some st1"
    and r1: "pool_run B xs st1 = Some st'"
    by (auto split: option.splits)
  have "(32 + 2 * k) * unat B \<le> (32 + 2 * (k + length (x # xs))) * unat B"
    by (intro mult_le_mono1) simp
  then have b0: "(32 + 2 * k) * unat B < 2 ^ 64" using Cons.prems(3) by (rule le_less_trans)
  have i1: "pool_inv B (Suc k) st1" using step_inv [OF Cons.prems(1,2) b0 s1] .
  have "pool_inv B (Suc k + length xs) st'"
    using Cons.IH [OF i1 Cons.prems(2) _ r1] Cons.prems(3) by simp
  then show ?case by simp
qed

text \<open>
  With addresses taken as pairs of a region and an offset, the block an acquire
  returns is none of the outstanding ones, its region belongs to the pool and its
  offset is a multiple of the block size, on every run that is short enough for
  \<^verbatim>\<open>size_t\<close> not to wrap around. This says nothing about the machine addresses of
  blocks that lie outside their region.
\<close>

lemma issued_blocks_apart:
  assumes "B \<noteq> 0"
    and "(32 + 2 * length ops) * unat B < 2 ^ 64"
    and "FixedAllocator_ctor B True h0 = (Inr a0, h1)"
    and "pool_run B ops \<lparr>pool = a0, sys = h1, outstanding = []\<rparr> = Some st"
    and "allocate B ok (pool st, sys st) = (Inr p, a', h')"
  shows "p \<notin> set (outstanding st) \<and> distinct (outstanding st) \<and>
         (\<exists>c \<in> set (chunks_FA a'). region p = region c \<and> offset c = 0) \<and>
         unat B dvd unat (offset p)"
proof -
  have i0: "pool_inv B 0 \<lparr>pool = a0, sys = h1, outstanding = []\<rparr>"
    using assms(3) by (rule ctor_inv)
  have i: "pool_inv B (0 + length ops) st"
    using run_inv [OF i0 assms(1) _ assms(4)] assms(2) by simp
  have a: "p \<notin> set (outstanding st) \<and> unat B dvd unat (offset p) \<and>
           (\<exists>c \<in> set (chunks_FA a'). region c = region p)"
    using acquire_inv(2) [OF i assms(1) _ assms(5)] assms(2) by simp
  have i': "pool_inv B (Suc (0 + length ops)) (st\<lparr>pool := a', sys := h', outstanding := p # outstanding st\<rparr>)"
    using acquire_inv(1) [OF i assms(1) _ assms(5)] assms(2) by simp
  then have "\<forall>c \<in> set (chunks_FA a'). offset c = 0" by (simp add: pool_inv_def Let_def)
  moreover have "distinct (outstanding st)" using i by (simp add: pool_inv_def Let_def)
  ultimately show ?thesis using a by metis
qed


text \<open>
  C3, on the path where the general-purpose allocator fails once (the defect of C4).
  A pool of block size 8 is created and 32 blocks are acquired, which fills the first
  region (256 bytes). The next acquire ends in \<^verbatim>\<open>std::bad_alloc\<close> with \<^verbatim>\<open>capacity_\<close>
  left at 64. The acquire after that returns offset 256 of the 256-byte region: the
  block is not within its owning region. After 32 such acquires the block at offset
  448 of region 0 is outstanding, and the next acquire creates the second region and
  returns its first block. Where the general-purpose allocator has put the first
  region at address 4096 and the second, apart from it, at 4544, the two blocks have
  the same machine address.
\<close>

theorem failed_growth_breaks_distinctness:
  "map_option (\<lambda>st. (regions (sys st), hd (outstanding st)))
     (pool_run 8 (replicate 32 (Acquire True) @ [Acquire False, Acquire True])
        \<lparr>pool = \<lparr>capacity_FA = 32, size_FA = 0, chunks_FA = [VPtr 0 0], returned_FA = []\<rparr>,
         sys = \<lparr>regions = [256], released = []\<rparr>, outstanding = []\<rparr>) =
     Some ([256], VPtr 0 256) \<and>
   map_option
     (\<lambda>st. (VPtr 0 448 \<in> set (outstanding st),
            fst (allocate 8 True (pool st, sys st)),
            regions (snd (snd (allocate 8 True (pool st, sys st))))))
     (pool_run 8 (replicate 32 (Acquire True) @ [Acquire False] @ replicate 32 (Acquire True))
        \<lparr>pool = \<lparr>capacity_FA = 32, size_FA = 0, chunks_FA = [VPtr 0 0], returned_FA = []\<rparr>,
         sys = \<lparr>regions = [256], released = []\<rparr>, outstanding = []\<rparr>) =
     Some (True, Inr (VPtr 1 0), [256, 1024]) \<and>
   (4096 :: nat) + 256 \<le> 4544 \<and>
   machine_address (\<lambda>r. if r = 0 then 4096 else 4544) (VPtr 0 448) =
     machine_address (\<lambda>r. if r = 0 then 4096 else 4544) (VPtr 1 0)"
  by code_simp

text \<open>C5: a block that is released is the block the next acquire returns, and the
  pool is then as it was before the release.\<close>

theorem release_then_acquire:
  "allocate chunkSize ok (deallocate X a, h) = (Inr X, a, h)"
  by (simp add: allocate_def deallocate_def)

text \<open>
  C4, on the path where the general-purpose allocator fails once. A pool of block size
  8 is created and 32 blocks are acquired, which fills the first region (256 bytes).
  The next acquire doubles \<^verbatim>\<open>capacity_\<close> to 64 and then asks for the new region; the
  request throws \<^verbatim>\<open>std::bad_alloc\<close>, and \<^verbatim>\<open>capacity_\<close> stays 64 although the
  current region still has 32 blocks. The acquire after that returns offset 256 of the
  256-byte region, the cursor runs on to 64, and the region that is created then has
  128 blocks (1024 bytes): four times the prior region's 32.
\<close>

theorem failed_growth_breaks_doubling:
  "map_option (\<lambda>st. (regions (sys st), capacity_FA (pool st), size_FA (pool st), hd (outstanding st)))
     (pool_run 8 (replicate 32 (Acquire True) @ [Acquire False, Acquire True])
        \<lparr>pool = \<lparr>capacity_FA = 32, size_FA = 0, chunks_FA = [VPtr 0 0], returned_FA = []\<rparr>,
         sys = \<lparr>regions = [256], released = []\<rparr>, outstanding = []\<rparr>) =
     Some ([256], 64, 33, VPtr 0 256) \<and>
   map_option (\<lambda>st. (regions (sys st), capacity_FA (pool st), size_FA (pool st), hd (outstanding st)))
     (pool_run 8 (replicate 32 (Acquire True) @ [Acquire False] @ replicate 33 (Acquire True))
        \<lparr>pool = \<lparr>capacity_FA = 32, size_FA = 0, chunks_FA = [VPtr 0 0], returned_FA = []\<rparr>,
         sys = \<lparr>regions = [256], released = []\<rparr>, outstanding = []\<rparr>) =
     Some ([256, 1024], 128, 1, VPtr 1 0)"
  by code_simp

subsection \<open>Runs without a failed allocation\<close>

lemma ctor_in_bounds:
  assumes c: "FixedAllocator_ctor B True h0 = (Inr a0, h1)" and b: "32 * unat B < 2 ^ 64"
  shows "in_bounds B \<lparr>pool = a0, sys = h1, outstanding = []\<rparr>"
proof -
  have "unat (32 :: size_t) * unat B < 2 ^ 64" using b by simp
  then have "unat (32 * B) = unat (32 :: size_t) * unat B" by (rule unat_mult_small)
  then have "unat (32 * B) = 32 * unat B" by simp
  then show ?thesis using c
    by (auto simp: FixedAllocator_ctor_def operator_new_def in_bounds_def)
qed

lemma fresh_in_bounds:
  assumes inv: "pool_inv B k st" and ib: "in_bounds B st"
    and ne: "size_FA (pool st) \<noteq> capacity_FA (pool st)"
    and bound: "(32 + 2 * k) * unat B < 2 ^ 64"
  defines "back \<equiv> last (chunks_FA (pool st))"
  defines "p \<equiv> VPtr (region back) (offset back + size_FA (pool st) * B)"
  shows "region p < length (regions (sys st)) \<and>
         unat (offset p) + unat B \<le> regions (sys st) ! region p"
proof -
  let ?a = "pool st"
  have ch: "chunks_FA ?a \<noteq> []" and le: "unat (size_FA ?a) \<le> unat (capacity_FA ?a)"
    and sk: "unat (size_FA ?a) \<le> k"
    and cs: "\<forall>c \<in> set (chunks_FA ?a). offset c = 0 \<and> region c < length (regions (sys st))"
    using inv by (simp_all add: pool_inv_def Let_def)
  have "back \<in> set (chunks_FA ?a)" using ch by (simp add: back_def)
  then have b0: "offset back = 0" and br: "region back < length (regions (sys st))"
    using cs by blast+
  have lt: "unat (size_FA ?a) < unat (capacity_FA ?a)"
    using le ne by (simp add: word_unat_eq_iff)
  have "unat (size_FA ?a) * unat B \<le> (32 + 2 * k) * unat B"
    using sk by (intro mult_le_mono1) simp
  then have "unat (size_FA ?a) * unat B < 2 ^ 64" using bound by (rule le_less_trans)
  then have m: "unat (size_FA ?a * B) = unat (size_FA ?a) * unat B" by (rule unat_mult_small)
  have rs: "regions (sys st) ! region back = unat (capacity_FA ?a) * unat B"
    using ib by (simp add: in_bounds_def back_def)
  have "unat (size_FA ?a) * unat B + unat B = Suc (unat (size_FA ?a)) * unat B" by simp
  also have "\<dots> \<le> unat (capacity_FA ?a) * unat B" using lt by (intro mult_le_mono1) simp
  finally have "unat (size_FA ?a * B) + unat B \<le> regions (sys st) ! region back"
    using m rs by simp
  then show ?thesis using br b0 by (simp add: p_def)
qed

lemma step_in_bounds:
  assumes inv: "pool_inv B k st" and ib: "in_bounds B st" and B: "B \<noteq> 0"
    and bound: "(32 + 2 * k) * unat B < 2 ^ 64"
    and x: "x \<noteq> Acquire False" and st: "pool_step B x st = Some st'"
  shows "in_bounds B st'"
proof (cases x)
  case (Release p)
  then have p: "p \<in> set (outstanding st)"
    and st': "st' = st\<lparr>pool := deallocate p (pool st), outstanding := remove1 p (outstanding st)\<rparr>"
    using st by (auto split: if_splits)
  have "set (remove1 p (outstanding st) @ returned_FA (pool st) @ [p]) \<subseteq>
        set (outstanding st @ returned_FA (pool st))"
    using p set_remove1_subset [of p "outstanding st"] by auto
  then show ?thesis using ib unfolding st' in_bounds_def deallocate_def by auto
next
  case (Acquire ok)
  then have ok: "ok" using x by simp
  let ?a = "pool st"
  have ch: "chunks_FA ?a \<noteq> []" using inv by (simp add: pool_inv_def Let_def)
  show ?thesis
  proof (cases "returned_FA ?a = []")
    case False
    have st': "st' = st\<lparr>pool := ?a\<lparr>returned_FA := butlast (returned_FA ?a)\<rparr>, sys := sys st,
                 outstanding := last (returned_FA ?a) # outstanding st\<rparr>"
      using st Acquire by (simp add: allocate_pop [OF False])
    have "set ((last (returned_FA ?a) # outstanding st) @ butlast (returned_FA ?a)) \<subseteq>
          set (outstanding st @ returned_FA ?a)"
      using False by (auto dest: in_set_butlastD)
    then show ?thesis using ib unfolding st' in_bounds_def by auto
  next
    case True
    show ?thesis
    proof (cases "size_FA ?a = capacity_FA ?a")
      case False
      let ?p = "VPtr (region (last (chunks_FA ?a))) (offset (last (chunks_FA ?a)) + size_FA ?a * B)"
      have st': "st' = st\<lparr>pool := ?a\<lparr>size_FA := size_FA ?a + 1\<rparr>, sys := sys st,
                   outstanding := ?p # outstanding st\<rparr>"
        using st Acquire by (simp add: allocate_fresh [OF True False ch])
      have "region ?p < length (regions (sys st)) \<and>
            unat (offset ?p) + unat B \<le> regions (sys st) ! region ?p"
        using inv ib False bound by (rule fresh_in_bounds)
      then show ?thesis using ib unfolding st' in_bounds_def by auto
    next
      case full: True
      let ?n = "length (regions (sys st))"
      let ?h = "(sys st)\<lparr>regions := regions (sys st) @ [unat (capacity_FA ?a * 2 * B)]\<rparr>"
      have st': "st' = st\<lparr>pool := ?a\<lparr>capacity_FA := capacity_FA ?a * 2,
                     chunks_FA := chunks_FA ?a @ [VPtr ?n 0], size_FA := 1\<rparr>,
                   sys := ?h, outstanding := VPtr ?n 0 # outstanding st\<rparr>"
        using st Acquire ok by (simp add: allocate_grow [OF True full])
      note dc = double_capacity [OF inv full B bound]
      have cp: "0 < unat (capacity_FA ?a)" using inv by (simp add: pool_inv_def Let_def)
      have "unat (capacity_FA ?a * 2) * unat B \<le> (32 + 2 * k) * unat B"
        using dc by (intro mult_le_mono1) simp
      then have "unat (capacity_FA ?a * 2) * unat B < 2 ^ 64" using bound by (rule le_less_trans)
      then have m: "unat (capacity_FA ?a * 2 * B) = unat (capacity_FA ?a * 2) * unat B"
        by (rule unat_mult_small)
      have big: "unat B \<le> unat (capacity_FA ?a * 2) * unat B" using dc(1) cp by simp
      have old: "\<forall>p \<in> set (outstanding st @ returned_FA ?a).
          region p < length (regions ?h) \<and> unat (offset p) + unat B \<le> regions ?h ! region p"
      proof
        fix p assume "p \<in> set (outstanding st @ returned_FA ?a)"
        then have "region p < length (regions (sys st)) \<and>
            unat (offset p) + unat B \<le> regions (sys st) ! region p"
          using ib unfolding in_bounds_def by blast
        then show "region p < length (regions ?h) \<and>
            unat (offset p) + unat B \<le> regions ?h ! region p"
          by (simp add: nth_append)
      qed
      show ?thesis unfolding st' in_bounds_def using m big old True by (simp add: nth_append)
    qed
  qed
qed

lemma run_in_bounds:
  assumes "pool_inv B k st" "in_bounds B st" "B \<noteq> 0"
    "(32 + 2 * (k + length ops)) * unat B < 2 ^ 64"
    "Acquire False \<notin> set ops" "pool_run B ops st = Some st'"
  shows "in_bounds B st'"
  using assms
proof (induction ops arbitrary: k st)
  case Nil
  then show ?case by simp
next
  case (Cons x xs)
  from Cons.prems(6) obtain st1 where s1: "pool_step B x st = Some st1"
    and r1: "pool_run B xs st1 = Some st'"
    by (auto split: option.splits)
  have "(32 + 2 * k) * unat B \<le> (32 + 2 * (k + length (x # xs))) * unat B"
    by (intro mult_le_mono1) simp
  then have b0: "(32 + 2 * k) * unat B < 2 ^ 64" using Cons.prems(4) by (rule le_less_trans)
  have x: "x \<noteq> Acquire False" and xs: "Acquire False \<notin> set xs" using Cons.prems(5) by auto
  have i1: "pool_inv B (Suc k) st1" using step_inv [OF Cons.prems(1,3) b0 s1] .
  have ib1: "in_bounds B st1" using step_in_bounds [OF Cons.prems(1,2,3) b0 x s1] .
  have b1: "(32 + 2 * (Suc k + length xs)) * unat B < 2 ^ 64" using Cons.prems(4) by simp
  show ?case using Cons.IH [OF i1 ib1 Cons.prems(3) b1 xs r1] .
qed

text \<open>
  On a run in which no call of \<^verbatim>\<open>::operator new\<close> fails, and which is short enough
  for \<^verbatim>\<open>size_t\<close> not to wrap around, every block that is outstanding or in the free
  list lies within its region: the region exists, and the block ends at or before
  the end of the region.
\<close>

lemma blocks_within_region:
  assumes B: "B \<noteq> 0" and bound: "(32 + 2 * length ops) * unat B < 2 ^ 64"
    and c: "FixedAllocator_ctor B True h0 = (Inr a0, h1)"
    and nf: "Acquire False \<notin> set ops"
    and run: "pool_run B ops \<lparr>pool = a0, sys = h1, outstanding = []\<rparr> = Some st"
    and p: "p \<in> set (outstanding st @ returned_FA (pool st))"
  shows "region p < length (regions (sys st)) \<and>
         unat (offset p) + unat B \<le> regions (sys st) ! region p"
proof -
  have "32 * unat B \<le> (32 + 2 * length ops) * unat B" by (intro mult_le_mono1) simp
  then have b32: "32 * unat B < 2 ^ 64" using bound by (rule le_less_trans)
  have i0: "pool_inv B 0 \<lparr>pool = a0, sys = h1, outstanding = []\<rparr>" using c by (rule ctor_inv)
  have ib0: "in_bounds B \<lparr>pool = a0, sys = h1, outstanding = []\<rparr>"
    using c b32 by (rule ctor_in_bounds)
  have b: "(32 + 2 * (0 + length ops)) * unat B < 2 ^ 64" using bound by simp
  have "in_bounds B st" using run_in_bounds [OF i0 ib0 B b nf run] .
  then show ?thesis using p unfolding in_bounds_def by blast
qed

section \<open>Properties of the dispatcher\<close>

text \<open>
  C2 as the code has it. When \<open>sizeof(T) \<le> 32\<close> and \<open>n \<le> 1\<close> (so also for \<open>n = 0\<close>),
  \<open>allocate(n)\<close> returns what \<^verbatim>\<open>allocate()\<close> of the singleton pool for chunk size
  \<open>sizeof(T)\<close> returns, that singleton takes the new state and no other singleton
  changes; \<open>deallocate(point, n)\<close> puts \<open>point\<close> on that singleton's free list.
  Otherwise no singleton changes, \<open>deallocate\<close> is \<^verbatim>\<open>::operator delete(point)\<close>, and
  \<open>allocate(n)\<close>, for a request whose size \<open>n * sizeof(T)\<close> is below \<open>2^64\<close>, returns a
  fresh region of exactly that many bytes from the general-purpose allocator or ends
  with its \<^verbatim>\<open>std::bad_alloc\<close>. Nothing is said about a request whose size does not
  fit \<^verbatim>\<open>size_t\<close>.
\<close>

theorem dispatch_by_size_and_count:
  fixes sizeofT n :: size_t
  shows
  "(sizeofT \<le> 32 \<and> n \<le> 1 \<longrightarrow>
      (\<forall>a g1 r a' h'.
         getFixedAllocator sizeofT ok g = (Inr a, g1) \<and>
         allocate sizeofT ok (a, general g1) = (r, a', h') \<longrightarrow>
           FastAllocator_allocate sizeofT ok n g =
             (r, g1\<lparr>allocator_FA := (allocator_FA g1)(sizeofT \<mapsto> a'), general := h'\<rparr>) \<and>
           (\<forall>k. k \<noteq> sizeofT \<longrightarrow> allocator_FA g1 k = allocator_FA g k)) \<and>
      (\<forall>a g1.
         getFixedAllocator sizeofT ok g = (Inr a, g1) \<longrightarrow>
           FastAllocator_deallocate sizeofT ok point n g =
             (Inr (), g1\<lparr>allocator_FA := (allocator_FA g1)(sizeofT \<mapsto> deallocate point a)\<rparr>))) \<and>
   (\<not> (sizeofT \<le> 32 \<and> n \<le> 1) \<longrightarrow>
      (unat n * unat sizeofT < 2 ^ 64 \<longrightarrow>
         (ok \<longrightarrow>
            fst (FastAllocator_allocate sizeofT ok n g) = Inr (VPtr (length (regions (general g))) 0) \<and>
            regions (general (snd (FastAllocator_allocate sizeofT ok n g))) =
              regions (general g) @ [unat n * unat sizeofT]) \<and>
         (\<not> ok \<longrightarrow> FastAllocator_allocate sizeofT ok n g = (Inl BadAlloc, g))) \<and>
      allocator_FA (snd (FastAllocator_allocate sizeofT ok n g)) = allocator_FA g \<and>
      FastAllocator_deallocate sizeofT ok point n g =
        (Inr (), g\<lparr>general := operator_delete point (general g)\<rparr>))"
proof -
  have m: "unat n * unat sizeofT < 2 ^ 64 \<Longrightarrow> unat (n * sizeofT) = unat n * unat sizeofT"
    by (rule unat_mult_small)
  show ?thesis
    using m
    by (auto simp: FastAllocator_allocate_def FastAllocator_deallocate_def maxSize_def
        getFixedAllocator_def operator_new_def
      split: prod.splits sum.splits option.splits)
qed


theorem dispatch_by_size_and_count_witness:
  "(8 :: size_t) \<le> 32 \<and> (1 :: size_t) \<le> 1 \<and>
   getFixedAllocator 8 True \<lparr>allocator_FA = (\<lambda>_. None), general = \<lparr>regions = [], released = []\<rparr>\<rparr> =
     (Inr \<lparr>capacity_FA = 32, size_FA = 0, chunks_FA = [VPtr 0 0], returned_FA = []\<rparr>,
      \<lparr>allocator_FA = (\<lambda>_. None)(8 \<mapsto>
          \<lparr>capacity_FA = 32, size_FA = 0, chunks_FA = [VPtr 0 0], returned_FA = []\<rparr>),
       general = \<lparr>regions = [256], released = []\<rparr>\<rparr>) \<and>
   fst (FastAllocator_allocate 8 True 1
     \<lparr>allocator_FA = (\<lambda>_. None), general = \<lparr>regions = [], released = []\<rparr>\<rparr>) = Inr (VPtr 0 0) \<and>
   allocator_FA (snd (FastAllocator_allocate 8 True 1
     \<lparr>allocator_FA = (\<lambda>_. None), general = \<lparr>regions = [], released = []\<rparr>\<rparr>)) 8 =
     Some \<lparr>capacity_FA = 32, size_FA = 1, chunks_FA = [VPtr 0 0], returned_FA = []\<rparr> \<and>
   \<not> ((8 :: size_t) \<le> 32 \<and> (2 :: size_t) \<le> 1) \<and>
   unat (2 :: size_t) * unat (8 :: size_t) < 2 ^ 64 \<and>
   fst (FastAllocator_allocate 8 True 2
     \<lparr>allocator_FA = (\<lambda>_. None), general = \<lparr>regions = [], released = []\<rparr>\<rparr>) = Inr (VPtr 0 0) \<and>
   regions (general (snd (FastAllocator_allocate 8 True 2
     \<lparr>allocator_FA = (\<lambda>_. None), general = \<lparr>regions = [], released = []\<rparr>\<rparr>))) = [16]"
  using dispatch_by_size_and_count [of 8 1 True
      "\<lparr>allocator_FA = (\<lambda>_. None), general = \<lparr>regions = [], released = []\<rparr>\<rparr>" "VPtr 0 0"]
    dispatch_by_size_and_count [of 8 2 True
      "\<lparr>allocator_FA = (\<lambda>_. None), general = \<lparr>regions = [], released = []\<rparr>\<rparr>" "VPtr 0 0"]
  by (simp add: getFixedAllocator_def FixedAllocator_ctor_def operator_new_def allocate_def Let_def
      word_le_nat_alt)

text \<open>
  C2 as it is stated fails for \<open>n = 0\<close>: with 8-byte elements, \<open>allocate(0)\<close> creates
  the pool for chunk size 8 and takes its first block; the general-purpose allocator
  is asked for the pool's region of 256 bytes, not for \<open>0 * 8\<close> bytes. It also fails
  where the size overflows: \<open>allocate(2^61)\<close> asks the general-purpose allocator for
  0 bytes, not for \<open>2^61 * 8 = 2^64\<close>.
\<close>

theorem count_zero_and_overflow:
  "fst (FastAllocator_allocate 8 True 0
          \<lparr>allocator_FA = (\<lambda>_. None), general = \<lparr>regions = [], released = []\<rparr>\<rparr>) = Inr (VPtr 0 0) \<and>
   allocator_FA (snd (FastAllocator_allocate 8 True 0
          \<lparr>allocator_FA = (\<lambda>_. None), general = \<lparr>regions = [], released = []\<rparr>\<rparr>)) 8 =
     Some \<lparr>capacity_FA = 32, size_FA = 1, chunks_FA = [VPtr 0 0], returned_FA = []\<rparr> \<and>
   regions (general (snd (FastAllocator_allocate 8 True 0
          \<lparr>allocator_FA = (\<lambda>_. None), general = \<lparr>regions = [], released = []\<rparr>\<rparr>))) = [256] \<and>
   regions (general (snd (FastAllocator_allocate 8 True 0
          \<lparr>allocator_FA = (\<lambda>_. None), general = \<lparr>regions = [], released = []\<rparr>\<rparr>))) \<noteq>
     regions \<lparr>regions = [], released = []\<rparr> @ [unat (0 :: size_t) * unat (8 :: size_t)] \<and>
   regions (general (snd (FastAllocator_allocate 8 True 2305843009213693952
          \<lparr>allocator_FA = (\<lambda>_. None), general = \<lparr>regions = [], released = []\<rparr>\<rparr>))) = [0] \<and>
   unat (2305843009213693952 :: size_t) * unat (8 :: size_t) = 18446744073709551616"
  by (simp add: FastAllocator_allocate_def maxSize_def getFixedAllocator_def
      FixedAllocator_ctor_def operator_new_def allocate_def Let_def word_le_nat_alt)


section \<open>Properties of the list\<close>

subsection \<open>Paths\<close>

lemma path_append:
  "path f c x (as @ bs) z \<longleftrightarrow> (\<exists>y. path f c x as y \<and> path f c y bs z)"
  by (induction as arbitrary: x) (auto split: option.splits)

lemma path_nonzero: "path f c x as y \<Longrightarrow> 0 \<notin> set as"
  by (induction as arbitrary: x) (auto split: option.splits)

lemma path_cong:
  "(\<And>p. p \<in> set as \<Longrightarrow> map_option f (c' p) = map_option f (c p)) \<Longrightarrow>
   path f c' x as y = path f c x as y"
proof (induction as arbitrary: x)
  case Nil
  then show ?case by simp
next
  case (Cons a as)
  have eq: "map_option f (c' a) = map_option f (c a)" using Cons.prems by simp
  have IH: "\<And>z. path f c' z as y = path f c z as y" using Cons by simp
  show ?case
  proof (cases "c a")
    case None
    then have "c' a = None" using eq by simp
    then show ?thesis using None by simp
  next
    case (Some n)
    then obtain n' where "c' a = Some n'" "f n' = f n" using eq by auto
    then show ?thesis using Some IH by simp
  qed
qed

lemma path_target_unique:
  "path f c x as y \<Longrightarrow> path f c x as z \<Longrightarrow> y = z"
  by (induction as arbitrary: x) (auto split: option.splits)

lemma path_snoc:
  "path f c x (as @ [a]) y \<longleftrightarrow> path f c x as a \<and> a \<noteq> 0 \<and> (\<exists>n. c a = Some n \<and> f n = y)"
  by (auto simp: path_append split: option.splits)

lemma path_Cons_iff:
  "path f c x (a # as) y \<longleftrightarrow> x = a \<and> a \<noteq> 0 \<and> (\<exists>n. c a = Some n \<and> path f c (f n) as y)"
  by (auto split: option.splits)

lemma insert_before_run:
  assumes av: "avail m = a # av" and a0: "a \<noteq> 0"
    and pt: "ptr \<noteq> 0" "ptr \<noteq> a" "cells m ptr = Some pn"
    and q: "prev pn = q" "q \<noteq> 0" "q \<noteq> a" "q \<noteq> ptr" "cells m q = Some qn"
    and nt: "\<not> throws v"
  shows "insert_before_L throws ptr v (L, m) =
     (Inr (), L\<lparr>size_L := size_L L + 1\<rparr>,
      \<lparr>cells = (cells m)(a \<mapsto> \<lparr>elem_N = Some v, next = ptr, prev = q\<rparr>,
                         q \<mapsto> qn\<lparr>next := a\<rparr>, ptr \<mapsto> pn\<lparr>prev := a\<rparr>),
       avail = av\<rparr>)"
  using assms
  by (simp add: insert_before_L_def alloc_node_def construct_def deref_def set_next_def
      set_prev_def Let_def)

lemma path_next_insert:
  assumes p: "path next c x (pre @ [q, p] @ post) 0"
    and d: "distinct (pre @ [q, p] @ post)"
    and a: "a \<notin> set (pre @ [q, p] @ post)" "a \<noteq> 0"
    and cq: "c q = Some qn" and cp: "c p = Some pn"
  shows "path next (c(a \<mapsto> \<lparr>elem_N = e, next = p, prev = q\<rparr>, q \<mapsto> qn\<lparr>next := a\<rparr>,
                      p \<mapsto> pn\<lparr>prev := a\<rparr>)) x (pre @ [q, a, p] @ post) 0"
proof -
  let ?c = "c(a \<mapsto> \<lparr>elem_N = e, next = p, prev = q\<rparr>, q \<mapsto> qn\<lparr>next := a\<rparr>, p \<mapsto> pn\<lparr>prev := a\<rparr>)"
  from p cq cp have p1: "path next c x pre q" and q0: "q \<noteq> 0" and p0: "p \<noteq> 0"
    and p3: "path next c (next pn) post 0"
    by (auto simp: path_append)
  have "path next ?c x pre q = path next c x pre q"
    using d a by (intro path_cong) auto
  moreover have "path next ?c (next pn) post 0 = path next c (next pn) post 0"
    using d a by (intro path_cong) auto
  ultimately show ?thesis
    using p1 p3 q0 p0 a d by (auto simp: path_append)
qed

lemma path_prev_insert:
  assumes p: "path prev c y (rpost @ [p, q] @ rpre) 0"
    and d: "distinct (rpost @ [p, q] @ rpre)"
    and a: "a \<notin> set (rpost @ [p, q] @ rpre)" "a \<noteq> 0"
    and cq: "c q = Some qn" and cp: "c p = Some pn"
  shows "path prev (c(a \<mapsto> \<lparr>elem_N = e, next = p, prev = q\<rparr>, q \<mapsto> qn\<lparr>next := a\<rparr>,
                      p \<mapsto> pn\<lparr>prev := a\<rparr>)) y (rpost @ [p, a, q] @ rpre) 0"
proof -
  let ?c = "c(a \<mapsto> \<lparr>elem_N = e, next = p, prev = q\<rparr>, q \<mapsto> qn\<lparr>next := a\<rparr>, p \<mapsto> pn\<lparr>prev := a\<rparr>)"
  from p cq cp have p1: "path prev c y rpost p" and q0: "q \<noteq> 0" and p0: "p \<noteq> 0"
    and pq: "prev pn = q"
    and p3: "path prev c (prev qn) rpre 0"
    by (auto simp: path_append)
  have "path prev ?c y rpost p = path prev c y rpost p"
    using d a by (intro path_cong) auto
  moreover have "path prev ?c (prev qn) rpre 0 = path prev c (prev qn) rpre 0"
    using d a by (intro path_cong) auto
  ultimately show ?thesis
    using p1 p3 q0 p0 a d by (auto simp: path_append)
qed

lemma elem_at_upd3:
  assumes "c q = Some qn" "c p = Some pn" "a \<noteq> q" "a \<noteq> p"
  shows "elem_at (c(a \<mapsto> N, q \<mapsto> qn\<lparr>next := u\<rparr>, p \<mapsto> pn\<lparr>prev := w\<rparr>)) r =
         (if r = a then elem_N N else elem_at c r)"
  using assms by (auto simp: elem_at_def)

lemma insert_before_spec:
  assumes il: "is_list m L (ps1 @ ps2) (xs1 @ xs2)" and len: "length ps1 = length xs1"
    and ok: "alloc_ok m (nodes_of L (ps1 @ ps2))" and av: "avail m = a # av"
    and nt: "\<not> throws v"
  defines "ptr \<equiv> hd (ps2 @ [end_L L])"
  defines "q \<equiv> last (begin_L L # ps1)"
  shows "\<exists>m'. insert_before_L throws ptr v (L, m) = (Inr (), L\<lparr>size_L := size_L L + 1\<rparr>, m') \<and>
           is_list m' (L\<lparr>size_L := size_L L + 1\<rparr>) (ps1 @ a # ps2) (xs1 @ v # xs2) \<and>
           alloc_ok m' (nodes_of L (ps1 @ a # ps2)) \<and> avail m' = av \<and>
           (\<forall>p. p \<noteq> a \<and> p \<noteq> ptr \<and> p \<noteq> q \<longrightarrow> cells m' p = cells m p) \<and>
           map_option next (cells m' ptr) = map_option next (cells m ptr)"
proof -
  let ?b = "begin_L L" and ?e = "end_L L"
  define pre where "pre = butlast (?b # ps1)"
  define post where "post = tl (ps2 @ [?e])"
  have bq: "?b # ps1 = pre @ [q]" by (simp add: pre_def q_def del: butlast.simps last.simps)
  have pe: "ps2 @ [?e] = ptr # post" by (simp add: ptr_def post_def)
  have ns: "nodes_of L (ps1 @ ps2) = pre @ [q, ptr] @ post"
  proof -
    have "nodes_of L (ps1 @ ps2) = (?b # ps1) @ (ps2 @ [?e])" by (simp add: nodes_of_def)
    then show ?thesis by (simp only: bq pe) simp
  qed
  have ns': "nodes_of L (ps1 @ a # ps2) = pre @ [q, a, ptr] @ post"
  proof -
    have "nodes_of L (ps1 @ a # ps2) = (?b # ps1) @ a # (ps2 @ [?e])" by (simp add: nodes_of_def)
    then show ?thesis by (simp only: bq pe) simp
  qed
  have pn: "path next (cells m) ?b (pre @ [q, ptr] @ post) 0"
    and pp: "path prev (cells m) ?e (rev post @ [ptr, q] @ rev pre) 0"
    and d: "distinct (pre @ [q, ptr] @ post)"
    and el: "map (elem_at (cells m)) (ps1 @ ps2) = map Some (xs1 @ xs2)"
    and sz: "size_L L = word_of_nat (length (xs1 @ xs2))"
    and sen: "elem_at (cells m) ?b = None" "elem_at (cells m) ?e = None"
    using il by (simp_all add: is_list_def ns)
  have a_new: "a \<notin> set (pre @ [q, ptr] @ post)" and a0: "a \<noteq> 0" and dav: "distinct (a # av)"
    and av0: "0 \<notin> set av" and avd: "set av \<inter> set (pre @ [q, ptr] @ post) = {}"
    using ok av by (auto simp: alloc_ok_def ns)
  obtain qn pn' where cq: "cells m q = Some qn" and cp: "cells m ptr = Some pn'"
    and q0: "q \<noteq> 0" and p0: "ptr \<noteq> 0"
    using pn by (auto simp: path_append split: option.splits)
  have pq: "prev pn' = q"
    using pp cq cp by (auto simp: path_append)
  have neq: "q \<noteq> ptr" "q \<noteq> a" "ptr \<noteq> a" using d a_new by auto
  let ?c = "(cells m)(a \<mapsto> \<lparr>elem_N = Some v, next = ptr, prev = q\<rparr>,
                         q \<mapsto> qn\<lparr>next := a\<rparr>, ptr \<mapsto> pn'\<lparr>prev := a\<rparr>)"
  let ?m = "\<lparr>cells = ?c, avail = av\<rparr>"
  let ?L = "L\<lparr>size_L := size_L L + 1\<rparr>"
  have run: "insert_before_L throws ptr v (L, m) = (Inr (), ?L, ?m)"
    using av a0 p0 neq cp pq q0 cq nt by (intro insert_before_run) auto
  have n1: "path next ?c ?b (pre @ [q, a, ptr] @ post) 0"
    using path_next_insert [OF pn d a_new a0 cq cp] .
  have d_rev: "distinct (rev post @ [ptr, q] @ rev pre)" using d by auto
  have a_rev: "a \<notin> set (rev post @ [ptr, q] @ rev pre)" using a_new by auto
  have n2: "path prev ?c ?e (rev post @ [ptr, a, q] @ rev pre) 0"
    using path_prev_insert [OF pp d_rev a_rev a0 cq cp] .
  have d': "distinct (pre @ [q, a, ptr] @ post)" using d a_new by auto
  have "a \<notin> set (nodes_of L (ps1 @ ps2))" using ok av by (auto simp: alloc_ok_def)
  note a_nodes = this
  from a_nodes have a_ps: "a \<notin> set ps1" "a \<notin> set ps2"
    by (auto simp: nodes_of_def)
  have el1: "map (elem_at (cells m)) ps1 = map Some xs1" and el2: "map (elem_at (cells m)) ps2 = map Some xs2"
    using el len by auto
  have same: "\<And>ps. a \<notin> set ps \<Longrightarrow> map (elem_at ?c) ps = map (elem_at (cells m)) ps"
    using neq by (intro map_cong) (auto simp: elem_at_upd3 [OF cq cp])
  have "elem_at ?c a = Some v" using neq by (simp add: elem_at_def)
  then have el': "map (elem_at ?c) (ps1 @ a # ps2) = map Some (xs1 @ v # xs2)"
    using el1 el2 a_ps by (simp add: same)
  have a_be: "a \<noteq> ?b" "a \<noteq> ?e"
    using a_nodes by (auto simp: nodes_of_def)
  have sen': "elem_at ?c ?b = None" "elem_at ?c ?e = None"
    using sen a_be by (simp_all add: elem_at_upd3 [OF cq cp neq(2) [symmetric] neq(3) [symmetric]])
  have nL: "nodes_of ?L (ps1 @ a # ps2) = pre @ [q, a, ptr] @ post"
    using ns' by (simp add: nodes_of_def)
  have sz': "size_L ?L = word_of_nat (length (xs1 @ v # xs2))" using sz by simp
  have rv: "rev (pre @ [q, a, ptr] @ post) = rev post @ [ptr, a, q] @ rev pre" by simp
  have sel: "begin_L ?L = begin_L L" "end_L ?L = end_L L" "cells ?m = ?c" by simp_all
  have il': "is_list ?m ?L (ps1 @ a # ps2) (xs1 @ v # xs2)"
    unfolding is_list_def nL rv sel
    using n1 n2 d' el' sz' sen' by blast
  have ok': "alloc_ok ?m (nodes_of L (ps1 @ a # ps2))"
    using dav av0 avd by (auto simp: alloc_ok_def ns')
  show ?thesis
    using run il' ok' neq cp by (intro exI [of _ ?m]) auto
qed

lemma erase_run:
  assumes pt: "ptr \<noteq> 0" "cells m ptr = Some n" "elem_N n \<noteq> None"
    and s: "next n = s" "s \<noteq> 0" "s \<noteq> ptr" "cells m s = Some sn"
    and q: "prev n = q" "q \<noteq> 0" "q \<noteq> ptr" "q \<noteq> s" "cells m q = Some qn"
  shows "erase_L ptr (L, m) =
     (Inr (), L\<lparr>size_L := size_L L - 1\<rparr>,
      \<lparr>cells = (cells m)(s \<mapsto> sn\<lparr>prev := q\<rparr>, q \<mapsto> qn\<lparr>next := s\<rparr>, ptr := None),
       avail = ptr # avail m\<rparr>)"
  using assms
  by (simp add: erase_L_def deref_def set_next_def set_prev_def destroy_def dealloc_node_def Let_def)

lemma path_next_erase:
  assumes p: "path next c x (pre @ [q, p, s] @ post) 0"
    and d: "distinct (pre @ [q, p, s] @ post)"
    and cq: "c q = Some qn" and cs: "c s = Some sn"
  shows "path next (c(s \<mapsto> sn\<lparr>prev := q'\<rparr>, q \<mapsto> qn\<lparr>next := s\<rparr>, p := None)) x
           (pre @ [q, s] @ post) 0"
proof -
  let ?c = "c(s \<mapsto> sn\<lparr>prev := q'\<rparr>, q \<mapsto> qn\<lparr>next := s\<rparr>, p := None)"
  from p cq cs have p1: "path next c x pre q" and q0: "q \<noteq> 0" and s0: "s \<noteq> 0"
    and p3: "path next c (next sn) post 0"
    by (auto simp: path_append split: option.splits)
  have "path next ?c x pre q = path next c x pre q"
    using d by (intro path_cong) auto
  moreover have "path next ?c (next sn) post 0 = path next c (next sn) post 0"
    using d by (intro path_cong) auto
  ultimately show ?thesis
    using p1 p3 q0 s0 d by (auto simp: path_append)
qed

lemma path_prev_erase:
  assumes p: "path prev c y (rpost @ [s, p, q] @ rpre) 0"
    and d: "distinct (rpost @ [s, p, q] @ rpre)"
    and cq: "c q = Some qn" and cs: "c s = Some sn"
  shows "path prev (c(s \<mapsto> sn\<lparr>prev := q\<rparr>, q \<mapsto> qn\<lparr>next := s'\<rparr>, p := None)) y
           (rpost @ [s, q] @ rpre) 0"
proof -
  let ?c = "c(s \<mapsto> sn\<lparr>prev := q\<rparr>, q \<mapsto> qn\<lparr>next := s'\<rparr>, p := None)"
  from p cq cs have p1: "path prev c y rpost s" and q0: "q \<noteq> 0" and s0: "s \<noteq> 0"
    and p3: "path prev c (prev qn) rpre 0"
    by (auto simp: path_append split: option.splits)
  have "path prev ?c y rpost s = path prev c y rpost s"
    using d by (intro path_cong) auto
  moreover have "path prev ?c (prev qn) rpre 0 = path prev c (prev qn) rpre 0"
    using d by (intro path_cong) auto
  ultimately show ?thesis
    using p1 p3 q0 s0 d by (auto simp: path_append)
qed

lemma nodes_of_size_upd [simp]: "nodes_of (L\<lparr>size_L := k\<rparr>) ps = nodes_of L ps"
  by (simp add: nodes_of_def)

lemma erase_spec:
  assumes il: "is_list m L (ps1 @ p # ps2) (xs1 @ x # xs2)" and len: "length ps1 = length xs1"
  defines "s \<equiv> hd (ps2 @ [end_L L])"
  defines "q \<equiv> last (begin_L L # ps1)"
  shows "\<exists>m'. erase_L p (L, m) = (Inr (), L\<lparr>size_L := size_L L - 1\<rparr>, m') \<and>
           is_list m' (L\<lparr>size_L := size_L L - 1\<rparr>) (ps1 @ ps2) (xs1 @ xs2) \<and>
           (alloc_ok m (nodes_of L (ps1 @ p # ps2)) \<longrightarrow> alloc_ok m' (nodes_of L (ps1 @ ps2))) \<and>
           avail m' = p # avail m \<and>
           (\<forall>r. r \<noteq> p \<and> r \<noteq> s \<and> r \<noteq> q \<longrightarrow> cells m' r = cells m r) \<and>
           map_option next (deref m p) = Some s"
proof -
  let ?b = "begin_L L" and ?e = "end_L L"
  define pre where "pre = butlast (?b # ps1)"
  define post where "post = tl (ps2 @ [?e])"
  have bq: "?b # ps1 = pre @ [q]" by (simp add: pre_def q_def del: butlast.simps last.simps)
  have pe: "ps2 @ [?e] = s # post" by (simp add: s_def post_def)
  have ns: "nodes_of L (ps1 @ p # ps2) = pre @ [q, p, s] @ post"
  proof -
    have "nodes_of L (ps1 @ p # ps2) = (?b # ps1) @ p # (ps2 @ [?e])" by (simp add: nodes_of_def)
    then show ?thesis by (simp only: bq pe) simp
  qed
  have ns': "nodes_of L (ps1 @ ps2) = pre @ [q, s] @ post"
  proof -
    have "nodes_of L (ps1 @ ps2) = (?b # ps1) @ (ps2 @ [?e])" by (simp add: nodes_of_def)
    then show ?thesis by (simp only: bq pe) simp
  qed
  have pn: "path next (cells m) ?b (pre @ [q, p, s] @ post) 0"
    and pp: "path prev (cells m) ?e (rev post @ [s, p, q] @ rev pre) 0"
    and d: "distinct (pre @ [q, p, s] @ post)"
    and el: "map (elem_at (cells m)) (ps1 @ p # ps2) = map Some (xs1 @ x # xs2)"
    and sz: "size_L L = word_of_nat (length (xs1 @ x # xs2))"
    and sen: "elem_at (cells m) ?b = None" "elem_at (cells m) ?e = None"
    using il by (simp_all add: is_list_def ns)
  obtain qn n sn where cq: "cells m q = Some qn" and cp: "cells m p = Some n"
    and cs: "cells m s = Some sn"
    and q0: "q \<noteq> 0" and p0: "p \<noteq> 0" and s0: "s \<noteq> 0" and nx: "next n = s"
    using pn by (auto simp: path_append split: option.splits)
  have pq: "prev n = q"
    using pp cq cp cs by (auto simp: path_append)
  have neq: "q \<noteq> p" "q \<noteq> s" "s \<noteq> p" using d by auto
  have el1: "map (elem_at (cells m)) ps1 = map Some xs1"
    and elp: "elem_at (cells m) p = Some x"
    and el2: "map (elem_at (cells m)) ps2 = map Some xs2"
    using el len by auto
  have en: "elem_N n \<noteq> None" using elp cp by (simp add: elem_at_def)
  let ?c = "(cells m)(s \<mapsto> sn\<lparr>prev := q\<rparr>, q \<mapsto> qn\<lparr>next := s\<rparr>, p := None)"
  let ?m = "\<lparr>cells = ?c, avail = p # avail m\<rparr>"
  let ?L = "L\<lparr>size_L := size_L L - 1\<rparr>"
  have run: "erase_L p (L, m) = (Inr (), ?L, ?m)"
    using p0 cp en nx s0 neq cs pq q0 cq by (intro erase_run) auto
  have n1: "path next ?c ?b (pre @ [q, s] @ post) 0"
    using path_next_erase [OF pn d cq cs] .
  have d_rev: "distinct (rev post @ [s, p, q] @ rev pre)" using d by auto
  have n2: "path prev ?c ?e (rev post @ [s, q] @ rev pre) 0"
    using path_prev_erase [OF pp d_rev cq cs] .
  have d': "distinct (pre @ [q, s] @ post)" using d by auto
  have dn: "distinct (nodes_of L (ps1 @ p # ps2))" using il by (simp add: is_list_def)
  then have p_ps: "p \<notin> set ps1" "p \<notin> set ps2" by (auto simp: nodes_of_def)
  have same: "\<And>ps. p \<notin> set ps \<Longrightarrow> map (elem_at ?c) ps = map (elem_at (cells m)) ps"
    using neq cq cs by (intro map_cong) (auto simp: elem_at_def)
  have el': "map (elem_at ?c) (ps1 @ ps2) = map Some (xs1 @ xs2)"
    using el1 el2 p_ps by (simp add: same)
  have "p \<noteq> ?b" "p \<noteq> ?e"
    using dn by (auto simp: nodes_of_def)
  then have sen': "elem_at ?c ?b = None" "elem_at ?c ?e = None"
    using sen cq cs by (auto simp: elem_at_def)
  have nL: "nodes_of ?L (ps1 @ ps2) = pre @ [q, s] @ post" using ns' by simp
  have sz': "size_L ?L = word_of_nat (length (xs1 @ xs2))" using sz by simp
  have rv: "rev (pre @ [q, s] @ post) = rev post @ [s, q] @ rev pre" by simp
  have sel: "begin_L ?L = begin_L L" "end_L ?L = end_L L" "cells ?m = ?c" by simp_all
  have il': "is_list ?m ?L (ps1 @ ps2) (xs1 @ xs2)"
    unfolding is_list_def nL rv sel
    using n1 n2 d' el' sz' sen' by blast
  have ok': "alloc_ok m (nodes_of L (ps1 @ p # ps2)) \<longrightarrow> alloc_ok ?m (nodes_of L (ps1 @ ps2))"
    using d p0 by (auto simp: alloc_ok_def ns ns')
  have "map_option next (deref m p) = Some s" using cp p0 nx by (simp add: deref_def)
  then show ?thesis
    using run il' ok' neq by (intro exI [of _ ?m]) auto
qed

lemma distinct_ptrs_bound:
  fixes ns :: "ptr list"
  assumes "distinct ns" "0 \<notin> set ns"
  shows "length ns < 2 ^ 64"
proof -
  have "set ns \<subseteq> UNIV - {0}" using assms(2) by auto
  then have "card (set ns) \<le> card (UNIV - {0 :: ptr})" by (intro card_mono) auto
  also have "\<dots> = 2 ^ 64 - 1" by (simp add: card_Diff_singleton card_word)
  finally show ?thesis using assms(1) by (simp add: distinct_card)
qed

lemma is_list_length:
  assumes "is_list m L ps xs"
  shows "length ps = length xs" and "unat (size_L L) = length xs" and "length xs + 2 < 2 ^ 64"
proof -
  show len: "length ps = length xs"
    using assms by (auto simp: is_list_def dest: map_eq_imp_length_eq)
  have pn: "path next (cells m) (begin_L L) (nodes_of L ps) 0"
    using assms by (simp add: is_list_def)
  have "distinct (nodes_of L ps)" using assms by (simp add: is_list_def)
  moreover have "0 \<notin> set (nodes_of L ps)" using pn by (rule path_nonzero)
  ultimately have "length (nodes_of L ps) < 2 ^ 64" by (rule distinct_ptrs_bound)
  then show b: "length xs + 2 < 2 ^ 64" using len by (simp add: nodes_of_def)
  have "size_L L = word_of_nat (length xs)" using assms by (simp add: is_list_def)
  then show "unat (size_L L) = length xs"
    using b by (simp add: unat_of_nat)
qed

lemma is_list_size_zero:
  assumes "is_list m L ps xs"
  shows "size_L L = 0 \<longleftrightarrow> xs = []"
  using is_list_length(2) [OF assms] by (metis length_0_conv unat_eq_0)

lemma is_list_begin:
  assumes "is_list m L ps xs"
  shows "List_begin (L, m) = Inr (hd (ps @ [end_L L]))"
proof -
  have "path next (cells m) (begin_L L) (begin_L L # ps @ [end_L L]) 0"
    using assms by (simp add: is_list_def nodes_of_def)
  then show ?thesis
    by (cases "ps @ [end_L L]") (auto simp: List_begin_def deref_def split: option.splits)
qed

lemma is_list_next_at:
  assumes "is_list m L (ps1 @ ps2) xs"
  defines "ptr \<equiv> hd (ps2 @ [end_L L])"
  shows "\<exists>n. deref m ptr = Some n \<and> next n = hd (tl (ps2 @ [end_L L]) @ [0])"
proof -
  have "path next (cells m) (begin_L L) ((begin_L L # ps1) @ ptr # tl (ps2 @ [end_L L])) 0"
    using assms by (simp add: is_list_def nodes_of_def)
  then obtain y where "path next (cells m) y (ptr # tl (ps2 @ [end_L L])) 0"
    unfolding path_append by blast
  then show ?thesis
    by (cases "tl (ps2 @ [end_L L])") (auto simp: deref_def split: option.splits)
qed

lemma List_insert_spec:
  assumes il: "is_list m L (ps1 @ ps2) (xs1 @ xs2)" and len: "length ps1 = length xs1"
    and ok: "alloc_ok m (nodes_of L (ps1 @ ps2))" and av: "avail m = a # av"
    and nt: "\<not> throws v"
  defines "ptr \<equiv> hd (ps2 @ [end_L L])"
  defines "q \<equiv> last (begin_L L # ps1)"
  shows "\<exists>m'. List_insert throws ptr v (L, m) =
             (Inr (hd (tl (ps2 @ [end_L L]) @ [0])), L\<lparr>size_L := size_L L + 1\<rparr>, m') \<and>
           is_list m' (L\<lparr>size_L := size_L L + 1\<rparr>) (ps1 @ a # ps2) (xs1 @ v # xs2) \<and>
           alloc_ok m' (nodes_of L (ps1 @ a # ps2)) \<and> avail m' = av \<and>
           (\<forall>p. p \<noteq> a \<and> p \<noteq> ptr \<and> p \<noteq> q \<longrightarrow> cells m' p = cells m p)"
proof -
  obtain m' where run: "insert_before_L throws ptr v (L, m) = (Inr (), L\<lparr>size_L := size_L L + 1\<rparr>, m')"
    and il': "is_list m' (L\<lparr>size_L := size_L L + 1\<rparr>) (ps1 @ a # ps2) (xs1 @ v # xs2)"
    and ok': "alloc_ok m' (nodes_of L (ps1 @ a # ps2))" and av': "avail m' = av"
    and fr: "\<forall>p. p \<noteq> a \<and> p \<noteq> ptr \<and> p \<noteq> q \<longrightarrow> cells m' p = cells m p"
    and nx: "map_option next (cells m' ptr) = map_option next (cells m ptr)"
    using insert_before_spec [where throws = throws and v = v, OF il len ok av nt]
    unfolding ptr_def q_def by blast
  obtain n where dn: "deref m ptr = Some n" and nn: "next n = hd (tl (ps2 @ [end_L L]) @ [0])"
    using is_list_next_at [OF il] unfolding ptr_def by blast
  then obtain n' where "deref m' ptr = Some n'" "next n' = next n"
    using nx by (auto simp: deref_def split: if_splits)
  then have "List_insert throws ptr v (L, m) =
      (Inr (hd (tl (ps2 @ [end_L L]) @ [0])), L\<lparr>size_L := size_L L + 1\<rparr>, m')"
    using run nn by (simp add: List_insert_def)
  then show ?thesis using il' ok' av' fr by blast
qed

lemma insert_before_fail:
  assumes "insert_before_L throws ptr v (L, m) = (Inl e, L', m')" "e \<noteq> Undefined"
  shows "L' = L \<and>
         (m' = m \<and> avail m = [] \<or>
          (\<exists>a av. avail m = a # av \<and> throws v \<and>
             m' = \<lparr>cells = (cells m)(a \<mapsto> \<lparr>elem_N = None, next = 0, prev = 0\<rparr>), avail = av\<rparr>))"
  using assms
  by (auto simp: insert_before_L_def alloc_node_def construct_def Let_def
      split: list.splits if_splits option.splits sum.splits prod.splits)

lemma is_list_frame:
  assumes "is_list m L ps xs" "\<And>p. p \<in> set (nodes_of L ps) \<Longrightarrow> cells m' p = cells m p"
  shows "is_list m' L ps xs"
proof -
  have n: "path next (cells m') (begin_L L) (nodes_of L ps) 0 = path next (cells m) (begin_L L) (nodes_of L ps) 0"
    using assms(2) by (intro path_cong) simp
  have p: "path prev (cells m') (end_L L) (rev (nodes_of L ps)) 0 = path prev (cells m) (end_L L) (rev (nodes_of L ps)) 0"
    using assms(2) by (intro path_cong) simp
  have e: "map (elem_at (cells m')) ps = map (elem_at (cells m)) ps"
    using assms(2) by (intro map_cong) (auto simp: elem_at_def nodes_of_def)
  have "elem_at (cells m') (begin_L L) = elem_at (cells m) (begin_L L)"
    "elem_at (cells m') (end_L L) = elem_at (cells m) (end_L L)"
    using assms(2) by (auto simp: elem_at_def nodes_of_def)
  then show ?thesis using assms(1) n p e by (simp add: is_list_def)
qed

lemma path_start: "path f c x as y \<Longrightarrow> as \<noteq> [] \<Longrightarrow> x = hd as"
  by (cases as) auto

lemma hd_rev_snoc: "hd (rev ps @ [b]) = last (b # ps)"
  by (cases ps rule: rev_cases) auto

lemma is_list_prev_end:
  assumes "is_list m L ps xs"
  shows "\<exists>n. deref m (end_L L) = Some n \<and> prev n = last (begin_L L # ps)"
proof -
  have "path prev (cells m) (end_L L) (end_L L # rev ps @ [begin_L L]) 0"
    using assms by (simp add: is_list_def nodes_of_def)
  then obtain n where e0: "end_L L \<noteq> 0" and ce: "cells m (end_L L) = Some n"
    and p: "path prev (cells m) (prev n) (rev ps @ [begin_L L]) 0"
    unfolding path_Cons_iff by blast
  have "prev n = hd (rev ps @ [begin_L L])" using p by (rule path_start) simp
  then show ?thesis using e0 ce by (simp add: deref_def hd_rev_snoc)
qed

lemma List_erase_spec:
  assumes il: "is_list m L (ps1 @ p # ps2) (xs1 @ x # xs2)" and len: "length ps1 = length xs1"
  defines "s \<equiv> hd (ps2 @ [end_L L])"
  defines "q \<equiv> last (begin_L L # ps1)"
  shows "\<exists>m'. List_erase p (L, m) = (Inr s, L\<lparr>size_L := size_L L - 1\<rparr>, m') \<and>
           is_list m' (L\<lparr>size_L := size_L L - 1\<rparr>) (ps1 @ ps2) (xs1 @ xs2) \<and>
           (alloc_ok m (nodes_of L (ps1 @ p # ps2)) \<longrightarrow> alloc_ok m' (nodes_of L (ps1 @ ps2))) \<and>
           avail m' = p # avail m \<and>
           (\<forall>r. r \<noteq> p \<and> r \<noteq> s \<and> r \<noteq> q \<longrightarrow> cells m' r = cells m r)"
proof -
  obtain m' where run: "erase_L p (L, m) = (Inr (), L\<lparr>size_L := size_L L - 1\<rparr>, m')"
    and rest: "is_list m' (L\<lparr>size_L := size_L L - 1\<rparr>) (ps1 @ ps2) (xs1 @ xs2)"
      "alloc_ok m (nodes_of L (ps1 @ p # ps2)) \<longrightarrow> alloc_ok m' (nodes_of L (ps1 @ ps2))"
      "avail m' = p # avail m"
      "\<forall>r. r \<noteq> p \<and> r \<noteq> s \<and> r \<noteq> q \<longrightarrow> cells m' r = cells m r"
    and nx: "map_option next (deref m p) = Some s"
    using erase_spec [OF il len] unfolding s_def q_def by blast
  from nx obtain n where "deref m p = Some n" "next n = s" by auto
  then have "List_erase p (L, m) = (Inr s, L\<lparr>size_L := size_L L - 1\<rparr>, m')"
    using run by (simp add: List_erase_def)
  then show ?thesis using rest by blast
qed

lemma List_pop_front_spec:
  assumes il: "is_list m L (p # ps) (x # xs)"
  shows "\<exists>m'. List_pop_front (L, m) = (Inr (), L\<lparr>size_L := size_L L - 1\<rparr>, m') \<and>
           is_list m' (L\<lparr>size_L := size_L L - 1\<rparr>) ps xs \<and>
           (alloc_ok m (nodes_of L (p # ps)) \<longrightarrow> alloc_ok m' (nodes_of L ps)) \<and>
           avail m' = p # avail m \<and>
           (\<forall>r. r \<notin> set (nodes_of L (p # ps)) \<longrightarrow> cells m' r = cells m r)"
proof -
  have nz: "size_L L \<noteq> 0" using is_list_size_zero [OF il] by simp
  have b: "List_begin (L, m) = Inr p" using is_list_begin [OF il] by simp
  have il0: "is_list m L ([] @ p # ps) ([] @ x # xs)" using il by simp
  obtain m' where run: "List_erase p (L, m) = (Inr (hd (ps @ [end_L L])), L\<lparr>size_L := size_L L - 1\<rparr>, m')"
    and rest: "is_list m' (L\<lparr>size_L := size_L L - 1\<rparr>) ([] @ ps) ([] @ xs)"
      "alloc_ok m (nodes_of L ([] @ p # ps)) \<longrightarrow> alloc_ok m' (nodes_of L ([] @ ps))"
      "avail m' = p # avail m"
    and fr: "\<forall>r. r \<noteq> p \<and> r \<noteq> hd (ps @ [end_L L]) \<and> r \<noteq> last (begin_L L # []) \<longrightarrow> cells m' r = cells m r"
    using List_erase_spec [OF il0] by auto
  have "hd (ps @ [end_L L]) \<in> set (nodes_of L (p # ps))"
    by (cases ps) (auto simp: nodes_of_def)
  then have fr': "\<forall>r. r \<notin> set (nodes_of L (p # ps)) \<longrightarrow> cells m' r = cells m r"
    using fr by (auto simp: nodes_of_def)
  have "List_pop_front (L, m) = (Inr (), L\<lparr>size_L := size_L L - 1\<rparr>, m')"
    using nz b run by (simp add: List_pop_front_def)
  then show ?thesis using rest fr' by auto
qed

lemma List_pop_back_spec:
  assumes il: "is_list m L (ps @ [p]) (xs @ [x])"
  shows "\<exists>m'. List_pop_back (L, m) = (Inr (), L\<lparr>size_L := size_L L - 1\<rparr>, m') \<and>
           is_list m' (L\<lparr>size_L := size_L L - 1\<rparr>) ps xs \<and>
           (alloc_ok m (nodes_of L (ps @ [p])) \<longrightarrow> alloc_ok m' (nodes_of L ps)) \<and>
           avail m' = p # avail m \<and>
           (\<forall>r. r \<notin> set (nodes_of L (ps @ [p])) \<longrightarrow> cells m' r = cells m r)"
proof -
  have nz: "size_L L \<noteq> 0" using is_list_size_zero [OF il] by simp
  obtain n where e: "deref m (end_L L) = Some n" "prev n = p"
    using is_list_prev_end [OF il] by auto
  have len: "length ps = length xs" using is_list_length(1) [OF il] by simp
  obtain m' where run: "List_erase p (L, m) = (Inr (hd ([] @ [end_L L])), L\<lparr>size_L := size_L L - 1\<rparr>, m')"
    and rest: "is_list m' (L\<lparr>size_L := size_L L - 1\<rparr>) (ps @ []) (xs @ [])"
      "alloc_ok m (nodes_of L (ps @ p # [])) \<longrightarrow> alloc_ok m' (nodes_of L (ps @ []))"
      "avail m' = p # avail m"
    and fr: "\<forall>r. r \<noteq> p \<and> r \<noteq> hd ([] @ [end_L L]) \<and> r \<noteq> last (begin_L L # ps) \<longrightarrow> cells m' r = cells m r"
    using List_erase_spec [OF il len] by blast
  have "last (begin_L L # ps) \<in> set (nodes_of L (ps @ [p]))"
    by (cases ps rule: rev_cases) (auto simp: nodes_of_def)
  then have fr': "\<forall>r. r \<notin> set (nodes_of L (ps @ [p])) \<longrightarrow> cells m' r = cells m r"
    using fr by (auto simp: nodes_of_def)
  have "List_pop_back (L, m) = (Inr (), L\<lparr>size_L := size_L L - 1\<rparr>, m')"
    using nz e run by (simp add: List_pop_back_def List_end_def)
  then show ?thesis using rest fr' by auto
qed

lemma pop_empty:
  assumes "size_L L = 0"
  shows "List_pop_front (L, m) = (Inr (), L, m)" and "List_pop_back (L, m) = (Inr (), L, m)"
  using assms by (simp_all add: List_pop_front_def List_pop_back_def)

subsection \<open>The claims about single operations\<close>

text \<open>
  C1, at the empty list of \<^verbatim>\<open>int\<close> whose sentinels are the nodes 1 and 2, with node 3
  free: \<^verbatim>\<open>insert(end(), 7)\<close> links the new node 3 between the front sentinel and the
  back sentinel, that is immediately before the position, and \<^verbatim>\<open>size_\<close> becomes 1.
  The iterator it returns is \<^verbatim>\<open>iter.ptr_->next\<close>, here the null pointer, and not the
  new node 3 (which is \<^verbatim>\<open>iter.ptr_->prev\<close>). In general the iterator returned is the
  successor of the position (lemma \<open>List_insert_spec\<close>).
\<close>

theorem insert_returns_successor_not_new_node:
  "fst (List_insert (\<lambda>_. False) 2 (7 :: int)
     (\<lparr>size_L = 0, begin_L = 1, end_L = 2\<rparr>,
      \<lparr>cells = (\<lambda>_. None)(1 \<mapsto> \<lparr>elem_N = None, next = 2, prev = 0\<rparr>,
                              2 \<mapsto> \<lparr>elem_N = None, next = 0, prev = 1\<rparr>), avail = [3]\<rparr>)) = Inr 0 \<and>
   fst (snd (List_insert (\<lambda>_. False) 2 (7 :: int)
     (\<lparr>size_L = 0, begin_L = 1, end_L = 2\<rparr>,
      \<lparr>cells = (\<lambda>_. None)(1 \<mapsto> \<lparr>elem_N = None, next = 2, prev = 0\<rparr>,
                              2 \<mapsto> \<lparr>elem_N = None, next = 0, prev = 1\<rparr>), avail = [3]\<rparr>))) =
     \<lparr>size_L = 1, begin_L = 1, end_L = 2\<rparr> \<and>
   map (cells (snd (snd (List_insert (\<lambda>_. False) 2 (7 :: int)
     (\<lparr>size_L = 0, begin_L = 1, end_L = 2\<rparr>,
      \<lparr>cells = (\<lambda>_. None)(1 \<mapsto> \<lparr>elem_N = None, next = 2, prev = 0\<rparr>,
                              2 \<mapsto> \<lparr>elem_N = None, next = 0, prev = 1\<rparr>), avail = [3]\<rparr>))))) [1, 3, 2] =
     [Some \<lparr>elem_N = None, next = 3, prev = 0\<rparr>,
      Some \<lparr>elem_N = Some 7, next = 2, prev = 1\<rparr>,
      Some \<lparr>elem_N = None, next = 0, prev = 3\<rparr>]"
  by (simp add: List_insert_def insert_before_L_def alloc_node_def construct_def deref_def set_next_def set_prev_def Let_def)

text \<open>
  C9: on an empty list \<^verbatim>\<open>pop_front()\<close> and \<^verbatim>\<open>pop_back()\<close> return with the list and
  the store exactly as they were. On a list that holds \<open>x # xs\<close>, \<^verbatim>\<open>pop_front()\<close> leaves
  a well-formed list with the same sentinels that holds \<open>xs\<close>; on a list that holds
  \<open>xs @ [x]\<close>, \<^verbatim>\<open>pop_back()\<close> leaves one that holds \<open>xs\<close>; the node of the element
  removed goes back to the allocator.
\<close>

theorem pop_boundary:
  "(is_list m L ps [] \<longrightarrow>
      List_pop_front (L, m) = (Inr (), L, m) \<and> List_pop_back (L, m) = (Inr (), L, m)) \<and>
   (is_list m L ps (x # xs) \<longrightarrow>
      (\<exists>L' m'. List_pop_front (L, m) = (Inr (), L', m') \<and>
         is_list m' L' (tl ps) xs \<and> begin_L L' = begin_L L \<and> end_L L' = end_L L \<and>
         unat (List_size L') = length xs \<and> avail m' = hd ps # avail m)) \<and>
   (is_list m L ps (xs @ [x]) \<longrightarrow>
      (\<exists>L' m'. List_pop_back (L, m) = (Inr (), L', m') \<and>
         is_list m' L' (butlast ps) xs \<and> begin_L L' = begin_L L \<and> end_L L' = end_L L \<and>
         unat (List_size L') = length xs \<and> avail m' = last ps # avail m))"
proof (intro conjI impI)
  assume il: "is_list m L ps []"
  then have "size_L L = 0" using is_list_size_zero by blast
  then show "List_pop_front (L, m) = (Inr (), L, m)" "List_pop_back (L, m) = (Inr (), L, m)"
    by (rule pop_empty)+
next
  assume il: "is_list m L ps (x # xs)"
  then have "length ps = length (x # xs)" by (rule is_list_length(1))
  then obtain p ps' where ps: "ps = p # ps'" by (cases ps) auto
  obtain m' where run: "List_pop_front (L, m) = (Inr (), L\<lparr>size_L := size_L L - 1\<rparr>, m')"
    and il': "is_list m' (L\<lparr>size_L := size_L L - 1\<rparr>) ps' xs" and av: "avail m' = p # avail m"
    using List_pop_front_spec [OF il [unfolded ps]] by blast
  have "unat (List_size (L\<lparr>size_L := size_L L - 1\<rparr>)) = length xs"
    using is_list_length(2) [OF il'] by (simp add: List_size_def)
  then show "\<exists>L' m'. List_pop_front (L, m) = (Inr (), L', m') \<and>
         is_list m' L' (tl ps) xs \<and> begin_L L' = begin_L L \<and> end_L L' = end_L L \<and>
         unat (List_size L') = length xs \<and> avail m' = hd ps # avail m"
    using run il' av ps by (intro exI [of _ "L\<lparr>size_L := size_L L - 1\<rparr>"] exI [of _ m']) simp
next
  assume il: "is_list m L ps (xs @ [x])"
  then have "length ps = length (xs @ [x])" by (rule is_list_length(1))
  then obtain p ps' where ps: "ps = ps' @ [p]" by (cases ps rule: rev_cases) auto
  obtain m' where run: "List_pop_back (L, m) = (Inr (), L\<lparr>size_L := size_L L - 1\<rparr>, m')"
    and il': "is_list m' (L\<lparr>size_L := size_L L - 1\<rparr>) ps' xs" and av: "avail m' = p # avail m"
    using List_pop_back_spec [OF il [unfolded ps]] by blast
  have "unat (List_size (L\<lparr>size_L := size_L L - 1\<rparr>)) = length xs"
    using is_list_length(2) [OF il'] by (simp add: List_size_def)
  then show "\<exists>L' m'. List_pop_back (L, m) = (Inr (), L', m') \<and>
         is_list m' L' (butlast ps) xs \<and> begin_L L' = begin_L L \<and> end_L L' = end_L L \<and>
         unat (List_size L') = length xs \<and> avail m' = last ps # avail m"
    using run il' av ps by (intro exI [of _ "L\<lparr>size_L := size_L L - 1\<rparr>"] exI [of _ m']) simp
qed

theorem pop_boundary_witness:
  "is_list
     \<lparr>cells = (\<lambda>_. None)(1 \<mapsto> \<lparr>elem_N = None :: int option, next = 2, prev = 0\<rparr>,
                             2 \<mapsto> \<lparr>elem_N = None, next = 0, prev = 1\<rparr>), avail = [3]\<rparr>
     \<lparr>size_L = 0, begin_L = 1, end_L = 2\<rparr> [] [] \<and>
   List_pop_front
     (\<lparr>size_L = 0, begin_L = 1, end_L = 2\<rparr>,
      \<lparr>cells = (\<lambda>_. None)(1 \<mapsto> \<lparr>elem_N = None :: int option, next = 2, prev = 0\<rparr>,
                              2 \<mapsto> \<lparr>elem_N = None, next = 0, prev = 1\<rparr>), avail = [3]\<rparr>) =
     (Inr (), \<lparr>size_L = 0, begin_L = 1, end_L = 2\<rparr>,
      \<lparr>cells = (\<lambda>_. None)(1 \<mapsto> \<lparr>elem_N = None :: int option, next = 2, prev = 0\<rparr>,
                              2 \<mapsto> \<lparr>elem_N = None, next = 0, prev = 1\<rparr>), avail = [3]\<rparr>) \<and>
   is_list
     \<lparr>cells = (\<lambda>_. None)(1 \<mapsto> \<lparr>elem_N = None, next = 3, prev = 0\<rparr>,
                             2 \<mapsto> \<lparr>elem_N = None, next = 0, prev = 3\<rparr>,
                             3 \<mapsto> \<lparr>elem_N = Some (7 :: int), next = 2, prev = 1\<rparr>), avail = []\<rparr>
     \<lparr>size_L = 1, begin_L = 1, end_L = 2\<rparr> [3] [7] \<and>
   (\<exists>L' m'. List_pop_front
       (\<lparr>size_L = 1, begin_L = 1, end_L = 2\<rparr>,
        \<lparr>cells = (\<lambda>_. None)(1 \<mapsto> \<lparr>elem_N = None, next = 3, prev = 0\<rparr>,
                                2 \<mapsto> \<lparr>elem_N = None, next = 0, prev = 3\<rparr>,
                                3 \<mapsto> \<lparr>elem_N = Some (7 :: int), next = 2, prev = 1\<rparr>), avail = []\<rparr>) =
       (Inr (), L', m') \<and> is_list m' L' [] [] \<and> unat (List_size L') = 0 \<and> avail m' = [3]) \<and>
   (\<exists>L' m'. List_pop_back
       (\<lparr>size_L = 1, begin_L = 1, end_L = 2\<rparr>,
        \<lparr>cells = (\<lambda>_. None)(1 \<mapsto> \<lparr>elem_N = None, next = 3, prev = 0\<rparr>,
                                2 \<mapsto> \<lparr>elem_N = None, next = 0, prev = 3\<rparr>,
                                3 \<mapsto> \<lparr>elem_N = Some (7 :: int), next = 2, prev = 1\<rparr>), avail = []\<rparr>) =
       (Inr (), L', m') \<and> is_list m' L' [] [] \<and> unat (List_size L') = 0 \<and> avail m' = [3])"
proof -
  let ?m0 = "\<lparr>cells = (\<lambda>_. None)(1 \<mapsto> \<lparr>elem_N = None :: int option, next = 2, prev = 0\<rparr>,
                             2 \<mapsto> \<lparr>elem_N = None, next = 0, prev = 1\<rparr>), avail = [3]\<rparr>"
  let ?L0 = "\<lparr>size_L = 0, begin_L = 1, end_L = 2\<rparr>"
  let ?m1 = "\<lparr>cells = (\<lambda>_. None)(1 \<mapsto> \<lparr>elem_N = None, next = 3, prev = 0\<rparr>,
                             2 \<mapsto> \<lparr>elem_N = None, next = 0, prev = 3\<rparr>,
                             3 \<mapsto> \<lparr>elem_N = Some (7 :: int), next = 2, prev = 1\<rparr>), avail = []\<rparr>"
  let ?L1 = "\<lparr>size_L = 1, begin_L = 1, end_L = 2\<rparr>"
  have e: "is_list ?m0 ?L0 [] []"
    by (simp add: is_list_def nodes_of_def elem_at_def)
  have o: "is_list ?m1 ?L1 [3] [7]"
    by (simp add: is_list_def nodes_of_def elem_at_def)
  have o': "is_list ?m1 ?L1 [3] ([] @ [7])" using o by simp
  note a = pop_boundary [of ?m0 ?L0 "[]" 7 "[]", THEN conjunct1, THEN mp, OF e]
  note b = pop_boundary [of ?m1 ?L1 "[3]" 7 "[]", THEN conjunct2, THEN conjunct1, THEN mp, OF o]
  note c = pop_boundary [of ?m1 ?L1 "[3]" 7 "[]", THEN conjunct2, THEN conjunct2, THEN mp, OF o']
  from b have b': "\<exists>L' m'. List_pop_front (?L1, ?m1) = (Inr (), L', m') \<and> is_list m' L' [] [] \<and>
      unat (List_size L') = 0 \<and> avail m' = [3]"
    by simp blast
  from c have c': "\<exists>L' m'. List_pop_back (?L1, ?m1) = (Inr (), L', m') \<and> is_list m' L' [] [] \<and>
      unat (List_size L') = 0 \<and> avail m' = [3]"
    by simp blast
  show ?thesis
    using e o a b' c' by blast
qed

subsection \<open>Every call refines its meaning on sequences\<close>

text \<open>
  The lemmas of this part lead to \<open>call_op_refines\<close>: on a well-formed list, whatever
  the allocator and the copy constructor of the elements do, a call of the client
  whose behaviour is defined leaves a well-formed list that holds the elements
  \<open>abs_op\<close> says when the call returns and the elements it held when the call throws,
  and it touches no cell outside the list's own nodes and the allocator's free
  addresses.
\<close>

lemma evolves_refl: "evolves m L ps m L ps"
  by (simp add: evolves_def)

lemma evolves_trans:
  assumes "evolves m L ps m1 L1 ps1" "evolves m1 L1 ps1 m2 L2 ps2"
  shows "evolves m L ps m2 L2 ps2"
proof -
  let ?S = "set (nodes_of L ps) \<union> set (avail m)"
  let ?S1 = "set (nodes_of L1 ps1) \<union> set (avail m1)"
  let ?S2 = "set (nodes_of L2 ps2) \<union> set (avail m2)"
  have s1: "?S1 \<subseteq> ?S" and s2: "?S2 \<subseteq> ?S1"
    and f1: "\<And>p. p \<notin> ?S \<Longrightarrow> cells m1 p = cells m p"
    and f2: "\<And>p. p \<notin> ?S1 \<Longrightarrow> cells m2 p = cells m1 p"
    and b: "begin_L L2 = begin_L L" "end_L L2 = end_L L"
    using assms by (simp_all add: evolves_def)
  have "?S2 \<subseteq> ?S" using s1 s2 by (rule order_trans [rotated])
  moreover have "\<And>p. p \<notin> ?S \<Longrightarrow> cells m2 p = cells m p"
  proof -
    fix p assume p: "p \<notin> ?S"
    then have "p \<notin> ?S1" using s1 by blast
    then show "cells m2 p = cells m p" using f1 [OF p] f2 by simp
  qed
  ultimately show ?thesis using b unfolding evolves_def by blast
qed

lemma insert_at_index:
  assumes il: "is_list m L ps xs" and ok: "alloc_ok m (nodes_of L ps)" and k: "k \<le> length ps"
    and av: "avail m = a # av" and nt: "\<not> throws v"
  shows "\<exists>m'. List_insert throws ((ps @ [end_L L]) ! k) v (L, m) =
             (Inr (((ps @ [end_L L]) @ [0]) ! Suc k), L\<lparr>size_L := size_L L + 1\<rparr>, m') \<and>
           is_list m' (L\<lparr>size_L := size_L L + 1\<rparr>) (take k ps @ a # drop k ps) (take k xs @ v # drop k xs) \<and>
           alloc_ok m' (nodes_of L (take k ps @ a # drop k ps)) \<and> avail m' = av \<and>
           evolves m L ps m' (L\<lparr>size_L := size_L L + 1\<rparr>) (take k ps @ a # drop k ps)"
proof -
  have len: "length ps = length xs" using il by (rule is_list_length(1))
  have il2: "is_list m L (take k ps @ drop k ps) (take k xs @ drop k xs)" using il by simp
  have l2: "length (take k ps) = length (take k xs)" using len by simp
  have ok2: "alloc_ok m (nodes_of L (take k ps @ drop k ps))" using ok by simp
  have ptr: "hd (drop k ps @ [end_L L]) = (ps @ [end_L L]) ! k"
    using k by (simp add: hd_append hd_drop_conv_nth nth_append)
  have nxt: "hd (tl (drop k ps @ [end_L L]) @ [0]) = ((ps @ [end_L L]) @ [0]) ! Suc k"
  proof -
    let ?zs = "ps @ [end_L L]"
    have a1: "drop k ps @ [end_L L] = drop k ?zs" using k by simp
    have a2: "tl (drop k ?zs) = drop (Suc k) ?zs" by (simp only: drop_Suc tl_drop)
    have "Suc k - length ?zs = 0" using k by simp
    then have a3: "drop (Suc k) ?zs @ [0] = drop (Suc k) (?zs @ [0])"
      by (simp only: drop_append drop_0)
    have "Suc k < length (?zs @ [0])" using k by simp
    then have "hd (drop (Suc k) (?zs @ [0])) = (?zs @ [0]) ! Suc k" by (rule hd_drop_conv_nth)
    then show ?thesis by (simp only: a1 a2 a3)
  qed
  obtain m' where run: "List_insert throws (hd (drop k ps @ [end_L L])) v (L, m) =
             (Inr (hd (tl (drop k ps @ [end_L L]) @ [0])), L\<lparr>size_L := size_L L + 1\<rparr>, m')"
    and il': "is_list m' (L\<lparr>size_L := size_L L + 1\<rparr>) (take k ps @ a # drop k ps) (take k xs @ v # drop k xs)"
    and ok': "alloc_ok m' (nodes_of L (take k ps @ a # drop k ps))" and av': "avail m' = av"
    and fr: "\<forall>p. p \<noteq> a \<and> p \<noteq> hd (drop k ps @ [end_L L]) \<and> p \<noteq> last (begin_L L # take k ps) \<longrightarrow>
               cells m' p = cells m p"
    using List_insert_spec [where throws = throws and v = v, OF il2 l2 ok2 av nt] by blast
  have in1: "hd (drop k ps @ [end_L L]) \<in> set (nodes_of L ps)"
    unfolding ptr using k by (cases "k < length ps") (auto simp: nodes_of_def nth_append)
  have in2: "last (begin_L L # take k ps) \<in> set (nodes_of L ps)"
  proof (cases "take k ps = []")
    case True
    then show ?thesis by (simp add: nodes_of_def)
  next
    case False
    then have "last (take k ps) \<in> set (take k ps)" by simp
    then have "last (take k ps) \<in> set ps" by (rule in_set_takeD)
    then show ?thesis using False by (simp add: nodes_of_def)
  qed
  have td: "set (take k ps) \<union> set (drop k ps) = set ps"
    by (simp only: set_append [symmetric] append_take_drop_id)
  have fr': "\<And>p. p \<notin> set (nodes_of L ps) \<union> set (avail m) \<Longrightarrow> cells m' p = cells m p"
  proof -
    fix p assume p: "p \<notin> set (nodes_of L ps) \<union> set (avail m)"
    then have "p \<noteq> a" using av by auto
    moreover have "p \<noteq> hd (drop k ps @ [end_L L])" using p in1 by blast
    moreover have "p \<noteq> last (begin_L L # take k ps)" using p in2 by blast
    ultimately show "cells m' p = cells m p" using fr by blast
  qed
  have "set (nodes_of L (take k ps @ a # drop k ps)) = insert a (set (nodes_of L ps))"
    using td by (auto simp: nodes_of_def)
  then have fp: "set (nodes_of (L\<lparr>size_L := size_L L + 1\<rparr>) (take k ps @ a # drop k ps)) \<union> set (avail m')
      \<subseteq> set (nodes_of L ps) \<union> set (avail m)"
    using av av' by auto
  have ev: "evolves m L ps m' (L\<lparr>size_L := size_L L + 1\<rparr>) (take k ps @ a # drop k ps)"
    unfolding evolves_def using fr' fp by simp
  show ?thesis using run il' ok' av' ev unfolding ptr nxt by blast
qed

lemma List_insert_fail:
  assumes il: "is_list m L ps xs" and ok: "alloc_ok m (nodes_of L ps)"
    and run: "List_insert throws ptr v (L, m) = (Inl e, L', m')" and e: "e \<noteq> Undefined"
  shows "L' = L \<and> is_list m' L ps xs \<and> alloc_ok m' (nodes_of L ps) \<and> evolves m L ps m' L ps \<and>
         length (avail m') \<le> length (avail m)"
proof -
  have ib: "insert_before_L throws ptr v (L, m) = (Inl e, L', m')"
    using run e by (auto simp: List_insert_def split: prod.splits sum.splits option.splits)
  from insert_before_fail [OF ib e] have L: "L' = L"
    and m: "m' = m \<and> avail m = [] \<or>
          (\<exists>a av. avail m = a # av \<and> throws v \<and>
             m' = \<lparr>cells = (cells m)(a \<mapsto> \<lparr>elem_N = None, next = 0, prev = 0\<rparr>), avail = av\<rparr>)"
    by blast+
  from m show ?thesis
  proof
    assume "m' = m \<and> avail m = []"
    then show ?thesis using L il ok by (simp add: evolves_refl)
  next
    assume "\<exists>a av. avail m = a # av \<and> throws v \<and>
             m' = \<lparr>cells = (cells m)(a \<mapsto> \<lparr>elem_N = None, next = 0, prev = 0\<rparr>), avail = av\<rparr>"
    then obtain a av where av: "avail m = a # av"
      and m': "m' = \<lparr>cells = (cells m)(a \<mapsto> \<lparr>elem_N = None, next = 0, prev = 0\<rparr>), avail = av\<rparr>"
      by blast
    have a: "a \<notin> set (nodes_of L ps)" using ok av by (auto simp: alloc_ok_def)
    have il': "is_list m' L ps xs"
      using il by (rule is_list_frame) (use a m' in auto)
    have ok': "alloc_ok m' (nodes_of L ps)" using ok av m' by (auto simp: alloc_ok_def)
    have ev: "evolves m L ps m' L ps" using av m' by (auto simp: evolves_def)
    show ?thesis using L il' ok' ev av m' by simp
  qed
qed

lemma insert_before_null: "fst (insert_before_L throws 0 v (L, m)) \<noteq> Inr u"
  by (auto simp: insert_before_L_def deref_def Let_def split: prod.splits sum.splits option.splits)

lemma List_insert_null: "fst (List_insert throws 0 v (L, m)) \<noteq> Inr it"
  using insert_before_null [of throws v L m]
  by (auto simp: List_insert_def split: prod.splits sum.splits option.splits)

lemma hd_drop_in_nodes: "hd (drop j ps @ [end_L L]) \<in> set (nodes_of L ps)"
proof (cases "drop j ps = []")
  case True
  then show ?thesis by (simp add: nodes_of_def)
next
  case False
  then have "hd (drop j ps) \<in> set (drop j ps)" by simp
  then have "hd (drop j ps) \<in> set ps" by (rule in_set_dropD)
  then show ?thesis using False by (simp add: nodes_of_def)
qed

lemma last_take_in_nodes: "last (begin_L L # take k ps) \<in> set (nodes_of L ps)"
proof (cases "take k ps = []")
  case True
  then show ?thesis by (simp add: nodes_of_def)
next
  case False
  then have "last (take k ps) \<in> set (take k ps)" by simp
  then have "last (take k ps) \<in> set ps" by (rule in_set_takeD)
  then show ?thesis using False by (simp add: nodes_of_def)
qed

lemma erase_at_index:
  assumes il: "is_list m L ps xs" and k: "k < length ps"
  shows "\<exists>m'. List_erase (ps ! k) (L, m) =
             (Inr ((ps @ [end_L L]) ! Suc k), L\<lparr>size_L := size_L L - 1\<rparr>, m') \<and>
           is_list m' (L\<lparr>size_L := size_L L - 1\<rparr>) (take k ps @ drop (Suc k) ps) (take k xs @ drop (Suc k) xs) \<and>
           (alloc_ok m (nodes_of L ps) \<longrightarrow> alloc_ok m' (nodes_of L (take k ps @ drop (Suc k) ps))) \<and>
           avail m' = ps ! k # avail m \<and>
           evolves m L ps m' (L\<lparr>size_L := size_L L - 1\<rparr>) (take k ps @ drop (Suc k) ps)"
proof -
  have len: "length ps = length xs" using il by (rule is_list_length(1))
  have ps: "ps = take k ps @ ps ! k # drop (Suc k) ps" using k by (rule id_take_nth_drop)
  have xs: "xs = take k xs @ xs ! k # drop (Suc k) xs" using k len by (intro id_take_nth_drop) simp
  have il2: "is_list m L (take k ps @ ps ! k # drop (Suc k) ps) (take k xs @ xs ! k # drop (Suc k) xs)"
    using il ps xs by simp
  have l2: "length (take k ps) = length (take k xs)" using len by simp
  have nxt: "hd (drop (Suc k) ps @ [end_L L]) = (ps @ [end_L L]) ! Suc k"
  proof -
    have "Suc k - length ps = 0" using k by simp
    then have "drop (Suc k) ps @ [end_L L] = drop (Suc k) (ps @ [end_L L])"
      by (simp only: drop_append drop_0)
    moreover have "Suc k < length (ps @ [end_L L])" using k by simp
    then have "hd (drop (Suc k) (ps @ [end_L L])) = (ps @ [end_L L]) ! Suc k" by (rule hd_drop_conv_nth)
    ultimately show ?thesis by simp
  qed
  obtain m' where run: "List_erase (ps ! k) (L, m) =
        (Inr (hd (drop (Suc k) ps @ [end_L L])), L\<lparr>size_L := size_L L - 1\<rparr>, m')"
    and il': "is_list m' (L\<lparr>size_L := size_L L - 1\<rparr>) (take k ps @ drop (Suc k) ps) (take k xs @ drop (Suc k) xs)"
    and ok': "alloc_ok m (nodes_of L (take k ps @ ps ! k # drop (Suc k) ps)) \<longrightarrow>
              alloc_ok m' (nodes_of L (take k ps @ drop (Suc k) ps))"
    and av': "avail m' = ps ! k # avail m"
    and fr: "\<forall>r. r \<noteq> ps ! k \<and> r \<noteq> hd (drop (Suc k) ps @ [end_L L]) \<and> r \<noteq> last (begin_L L # take k ps) \<longrightarrow>
               cells m' r = cells m r"
    using List_erase_spec [OF il2 l2] by blast
  have pk: "ps ! k \<in> set ps" using k by simp
  have sub: "set (take k ps @ drop (Suc k) ps) \<subseteq> set ps"
    using set_take_subset [of k ps] set_drop_subset [of "Suc k" ps] by auto
  have fr': "\<And>p. p \<notin> set (nodes_of L ps) \<union> set (avail m) \<Longrightarrow> cells m' p = cells m p"
  proof -
    fix p assume p: "p \<notin> set (nodes_of L ps) \<union> set (avail m)"
    then have "p \<noteq> ps ! k" using pk by (auto simp: nodes_of_def)
    moreover have "p \<noteq> hd (drop (Suc k) ps @ [end_L L])" using p hd_drop_in_nodes [of "Suc k" ps L] by blast
    moreover have "p \<noteq> last (begin_L L # take k ps)" using p last_take_in_nodes [of L k ps] by blast
    ultimately show "cells m' p = cells m p" using fr by blast
  qed
  have "set (nodes_of L (take k ps @ drop (Suc k) ps)) \<subseteq> set (nodes_of L ps)"
    using sub by (auto simp: nodes_of_def)
  moreover have "ps ! k \<in> set (nodes_of L ps)" using pk by (simp add: nodes_of_def)
  ultimately have fp: "set (nodes_of (L\<lparr>size_L := size_L L - 1\<rparr>) (take k ps @ drop (Suc k) ps)) \<union> set (avail m')
      \<subseteq> set (nodes_of L ps) \<union> set (avail m)"
    using av' by auto
  have ev: "evolves m L ps m' (L\<lparr>size_L := size_L L - 1\<rparr>) (take k ps @ drop (Suc k) ps)"
    unfolding evolves_def using fr' fp by simp
  have ok'': "alloc_ok m (nodes_of L ps) \<longrightarrow> alloc_ok m' (nodes_of L (take k ps @ drop (Suc k) ps))"
    using ok' ps by simp
  show ?thesis using run il' ok'' av' ev unfolding nxt by blast
qed

lemma erase_errors:
  "erase_L p s = (Inl e, s') \<Longrightarrow> e = Undefined"
  by (cases s) (auto simp: erase_L_def split: option.splits if_splits sum.splits prod.splits)

lemma List_erase_errors:
  "List_erase p s = (Inl e, s') \<Longrightarrow> e = Undefined"
  by (cases s) (auto simp: List_erase_def dest: erase_errors split: option.splits sum.splits prod.splits)

lemma List_erase_null: "fst (List_erase 0 s) = Inl Undefined"
  by (cases s) (simp add: List_erase_def deref_def)

lemma is_list_end_node:
  assumes "is_list m L ps xs"
  shows "\<exists>n. cells m (end_L L) = Some n \<and> next n = 0 \<and> elem_N n = None \<and> end_L L \<noteq> 0"
proof -
  have "path next (cells m) (begin_L L) ((begin_L L # ps) @ [end_L L]) 0"
    and "elem_at (cells m) (end_L L) = None"
    using assms by (simp_all add: is_list_def nodes_of_def)
  then show ?thesis unfolding path_snoc by (auto simp: elem_at_def)
qed

lemma List_erase_end:
  assumes il: "is_list m L ps xs"
  shows "fst (List_erase (end_L L) (L, m)) = Inl Undefined"
proof -
  let ?e = "end_L L"
  obtain n where ce: "cells m ?e = Some n" and nx: "next n = 0" and el: "elem_N n = None" and e0: "?e \<noteq> 0"
    using is_list_end_node [OF il] by blast
  obtain n' where "deref m ?e = Some n'" and pv: "prev n' = last (begin_L L # ps)"
    using is_list_prev_end [OF il] by blast
  then have pv: "prev n = last (begin_L L # ps)" using ce e0 by (simp add: deref_def)
  have "last (begin_L L # ps) \<in> set (begin_L L # ps)" by (rule last_in_set) simp
  moreover have "distinct ((begin_L L # ps) @ [?e])" using il by (simp add: is_list_def nodes_of_def)
  ultimately have ne: "prev n \<noteq> ?e" using pv by auto
  have "fst (erase_L ?e (L, m)) = Inl Undefined"
    using ce nx el e0 ne
    by (auto simp: erase_L_def deref_def set_next_def split: option.splits)
  then show ?thesis using ce e0
    by (auto simp: List_erase_def deref_def split: prod.splits sum.splits dest: erase_errors)
qed

lemma advance_path:
  "path next (cells m) it qs y \<Longrightarrow> k \<le> length qs \<Longrightarrow> advance m it k = Inr ((qs @ [y]) ! k)"
proof (induction qs arbitrary: it k)
  case Nil
  then show ?case by simp
next
  case (Cons a qs)
  show ?case
  proof (cases k)
    case 0
    then show ?thesis using Cons.prems by simp
  next
    case (Suc j)
    from Cons.prems obtain n where "it = a" "a \<noteq> 0" "cells m a = Some n"
      and p: "path next (cells m) (next n) qs y"
      unfolding path_Cons_iff by blast
    then show ?thesis using Cons.IH [OF p, of j] Cons.prems(2) Suc by (simp add: deref_def)
  qed
qed

lemma advance_beyond:
  "path next (cells m) it qs 0 \<Longrightarrow> length qs < k \<Longrightarrow> advance m it k = Inl Undefined"
proof (induction qs arbitrary: it k)
  case Nil
  then obtain j where "k = Suc j" by (cases k) auto
  then show ?case using Nil by (simp add: deref_def)
next
  case (Cons a qs)
  then obtain j where k: "k = Suc j" by (cases k) auto
  from Cons.prems obtain n where "it = a" "a \<noteq> 0" "cells m a = Some n"
    and p: "path next (cells m) (next n) qs 0"
    unfolding path_Cons_iff by blast
  then show ?case using Cons.IH [OF p, of j] Cons.prems(2) k by (simp add: deref_def)
qed

lemma is_list_first:
  assumes "is_list m L ps xs"
  shows "\<exists>it. List_begin (L, m) = Inr it \<and> path next (cells m) it (ps @ [end_L L]) 0"
proof -
  have "path next (cells m) (begin_L L) (begin_L L # ps @ [end_L L]) 0"
    using assms by (simp add: is_list_def nodes_of_def)
  then obtain n where "begin_L L \<noteq> 0" "cells m (begin_L L) = Some n"
    "path next (cells m) (next n) (ps @ [end_L L]) 0"
    unfolding path_Cons_iff by blast
  then show ?thesis by (simp add: List_begin_def deref_def)
qed

lemma position_spec:
  assumes "is_list m L ps xs"
  shows "position (L, m) k =
           (if k \<le> Suc (length ps) then Inr (((ps @ [end_L L]) @ [0]) ! k) else Inl Undefined)"
proof -
  obtain it where b: "List_begin (L, m) = Inr it" and p: "path next (cells m) it (ps @ [end_L L]) 0"
    using is_list_first [OF assms] by blast
  show ?thesis
  proof (cases "k \<le> Suc (length ps)")
    case True
    then have "advance m it k = Inr (((ps @ [end_L L]) @ [0]) ! k)"
      using advance_path [OF p, of k] by simp
    then show ?thesis using b True by (simp add: position_def)
  next
    case False
    then have "advance m it k = Inl Undefined"
      using advance_beyond [OF p, of k] by simp
    then show ?thesis using b False by (simp add: position_def)
  qed
qed

lemma insert_before_no_memory:
  "avail m = [] \<Longrightarrow> insert_before_L throws ptr v (L, m) = (Inl BadAlloc, L, m)"
  by (simp add: insert_before_L_def alloc_node_def)

lemma insert_before_copy_throws:
  "avail m = a # av \<Longrightarrow> throws v \<Longrightarrow>
   insert_before_L throws ptr v (L, m) =
     (Inl CopyThrows, L,
      \<lparr>cells = (cells m)(a \<mapsto> \<lparr>elem_N = None, next = 0, prev = 0\<rparr>), avail = av\<rparr>)"
  by (simp add: insert_before_L_def alloc_node_def construct_def)

lemma insert_before_refused:
  assumes "avail m = [] \<or> throws v"
  shows "\<exists>e m'. insert_before_L throws ptr v (L, m) = (Inl e, L, m') \<and> e \<noteq> Undefined"
proof (cases "avail m")
  case Nil
  then show ?thesis using insert_before_no_memory [OF Nil] by blast
next
  case (Cons a av)
  then have "throws v" using assms by simp
  then show ?thesis using insert_before_copy_throws [OF Cons] by blast
qed

lemma insert_index_total:
  assumes il: "is_list m L ps xs" and ok: "alloc_ok m (nodes_of L ps)" and k: "k \<le> length ps"
    and run: "List_insert throws ((ps @ [end_L L]) ! k) v (L, m) = (r, L', m')"
  shows "(\<exists>it a. r = Inr it \<and> avail m = a # avail m' \<and>
            is_list m' L' (take k ps @ a # drop k ps) (take k xs @ v # drop k xs) \<and>
            alloc_ok m' (nodes_of L' (take k ps @ a # drop k ps)) \<and>
            evolves m L ps m' L' (take k ps @ a # drop k ps)) \<or>
         (\<exists>e. r = Inl e \<and> e \<noteq> Undefined \<and> L' = L \<and> is_list m' L ps xs \<and>
            alloc_ok m' (nodes_of L ps) \<and> evolves m L ps m' L ps \<and>
            length (avail m') \<le> length (avail m))"
proof (cases "avail m = [] \<or> throws v")
  case True
  have "\<exists>e m1. insert_before_L throws ((ps @ [end_L L]) ! k) v (L, m) = (Inl e, L, m1) \<and> e \<noteq> Undefined"
    using True by (rule insert_before_refused)
  then obtain e m1 where ib: "insert_before_L throws ((ps @ [end_L L]) ! k) v (L, m) = (Inl e, L, m1)"
    and e: "e \<noteq> Undefined"
    by (elim exE conjE)
  have li: "List_insert throws ((ps @ [end_L L]) ! k) v (L, m) = (Inl e, L, m1)"
    using ib by (simp add: List_insert_def)
  have r: "r = Inl e" and L': "L' = L" and m': "m' = m1" using run li by simp_all
  have li': "List_insert throws ((ps @ [end_L L]) ! k) v (L, m) = (Inl e, L', m')"
    using li L' m' by simp
  have "L' = L \<and> is_list m' L ps xs \<and> alloc_ok m' (nodes_of L ps) \<and> evolves m L ps m' L ps \<and>
         length (avail m') \<le> length (avail m)"
    using il ok li' e by (rule List_insert_fail)
  then have "r = Inl e \<and> e \<noteq> Undefined \<and> L' = L \<and> is_list m' L ps xs \<and>
            alloc_ok m' (nodes_of L ps) \<and> evolves m L ps m' L ps \<and>
            length (avail m') \<le> length (avail m)"
    using r e by (intro conjI) (elim conjE; assumption)+
  then show ?thesis by (intro disjI2 exI [of _ e])
next
  case False
  then obtain a av where av: "avail m = a # av" and nt: "\<not> throws v"
    by (cases "avail m") auto
  obtain m1 where r1: "List_insert throws ((ps @ [end_L L]) ! k) v (L, m) =
             (Inr (((ps @ [end_L L]) @ [0]) ! Suc k), L\<lparr>size_L := size_L L + 1\<rparr>, m1)"
    and rest: "is_list m1 (L\<lparr>size_L := size_L L + 1\<rparr>) (take k ps @ a # drop k ps) (take k xs @ v # drop k xs)"
      "alloc_ok m1 (nodes_of L (take k ps @ a # drop k ps))" "avail m1 = av"
      "evolves m L ps m1 (L\<lparr>size_L := size_L L + 1\<rparr>) (take k ps @ a # drop k ps)"
    using insert_at_index [where throws = throws and v = v, OF il ok k av nt] by blast
  from r1 run have eq: "r = Inr (((ps @ [end_L L]) @ [0]) ! Suc k)" "L' = L\<lparr>size_L := size_L L + 1\<rparr>" "m' = m1"
    by simp_all
  have "nodes_of L' (take k ps @ a # drop k ps) = nodes_of L (take k ps @ a # drop k ps)"
    using eq(2) by simp
  then show ?thesis using rest av eq
    by (intro disjI1 exI [of _ "((ps @ [end_L L]) @ [0]) ! Suc k"] exI [of _ a]) simp
qed

lemma erase_index_total:
  assumes il: "is_list m L ps xs" and ok: "alloc_ok m (nodes_of L ps)" and k: "k < length ps"
    and run: "List_erase (ps ! k) (L, m) = (r, L', m')"
  shows "\<exists>it. r = Inr it \<and> avail m' = ps ! k # avail m \<and>
            is_list m' L' (take k ps @ drop (Suc k) ps) (take k xs @ drop (Suc k) xs) \<and>
            alloc_ok m' (nodes_of L' (take k ps @ drop (Suc k) ps)) \<and>
            evolves m L ps m' L' (take k ps @ drop (Suc k) ps)"
proof -
  obtain m1 where r1: "List_erase (ps ! k) (L, m) =
             (Inr ((ps @ [end_L L]) ! Suc k), L\<lparr>size_L := size_L L - 1\<rparr>, m1)"
    and rest: "is_list m1 (L\<lparr>size_L := size_L L - 1\<rparr>) (take k ps @ drop (Suc k) ps) (take k xs @ drop (Suc k) xs)"
      "alloc_ok m (nodes_of L ps) \<longrightarrow> alloc_ok m1 (nodes_of L (take k ps @ drop (Suc k) ps))"
      "avail m1 = ps ! k # avail m"
      "evolves m L ps m1 (L\<lparr>size_L := size_L L - 1\<rparr>) (take k ps @ drop (Suc k) ps)"
    using erase_at_index [OF il k] by blast
  from r1 run have eq: "r = Inr ((ps @ [end_L L]) ! Suc k)" "L' = L\<lparr>size_L := size_L L - 1\<rparr>" "m' = m1"
    by simp_all
  have "nodes_of L' (take k ps @ drop (Suc k) ps) = nodes_of L (take k ps @ drop (Suc k) ps)"
    using eq(2) by simp
  then show ?thesis using rest ok eq
    by (intro exI [of _ "(ps @ [end_L L]) ! Suc k"]) simp
qed

lemma insertion_refines:
  assumes il: "is_list m L ps xs" and ok: "alloc_ok m (nodes_of L ps)" and k: "k \<le> length ps"
    and run: "List_insert throws ((ps @ [end_L L]) ! k) v (L, m) = (r0, L', m')"
    and ab: "abs_op x xs = Some (take k xs @ v # drop k xs)" and ins: "is_insertion x"
  shows "r0 \<noteq> Inl Undefined \<and>
         refines x (case r0 of Inl e \<Rightarrow> Inl e | Inr _ \<Rightarrow> Inr ()) m L ps xs m' L'"
proof -
  from insert_index_total [OF il ok k run]
  show ?thesis
  proof
    assume "\<exists>it a. r0 = Inr it \<and> avail m = a # avail m' \<and>
            is_list m' L' (take k ps @ a # drop k ps) (take k xs @ v # drop k xs) \<and>
            alloc_ok m' (nodes_of L' (take k ps @ a # drop k ps)) \<and>
            evolves m L ps m' L' (take k ps @ a # drop k ps)"
    then obtain it a where r0: "r0 = Inr it" and av: "avail m = a # avail m'"
      and il': "is_list m' L' (take k ps @ a # drop k ps) (take k xs @ v # drop k xs)"
      and ok': "alloc_ok m' (nodes_of L' (take k ps @ a # drop k ps))"
      and ev: "evolves m L ps m' L' (take k ps @ a # drop k ps)"
      by (elim exE conjE)
    have len: "length ps = length xs" using il by (rule is_list_length(1))
    have c: "counts x m m' xs (take k xs @ v # drop k xs)"
      using av ins k len by (simp add: counts_def)
    have "refines x (Inr ()) m L ps xs m' L'"
      unfolding refines_def using il' ok' ev ab c by auto
    then show ?thesis using r0 by simp
  next
    assume "\<exists>e. r0 = Inl e \<and> e \<noteq> Undefined \<and> L' = L \<and> is_list m' L ps xs \<and>
            alloc_ok m' (nodes_of L ps) \<and> evolves m L ps m' L ps \<and>
            length (avail m') \<le> length (avail m)"
    then obtain e where r0: "r0 = Inl e" and e: "e \<noteq> Undefined" and L': "L' = L"
      and il': "is_list m' L ps xs" and ok': "alloc_ok m' (nodes_of L ps)"
      and ev: "evolves m L ps m' L ps"
      by (elim exE conjE)
    have "refines x (Inl e) m L ps xs m' L'"
      unfolding refines_def using il' ok' ev L' by auto
    then show ?thesis using r0 e by simp
  qed
qed

lemma erasure_refines:
  assumes il: "is_list m L ps xs" and ok: "alloc_ok m (nodes_of L ps)" and k: "k < length ps"
    and run: "List_erase (ps ! k) (L, m) = (r0, L', m')"
    and ab: "abs_op x xs = Some (take k xs @ drop (Suc k) xs)" and ins: "\<not> is_insertion x"
  shows "(\<exists>it. r0 = Inr it) \<and> refines x (Inr ()) m L ps xs m' L'"
proof -
  from erase_index_total [OF il ok k run]
  obtain it where r0: "r0 = Inr it" and av: "avail m' = ps ! k # avail m"
    and il': "is_list m' L' (take k ps @ drop (Suc k) ps) (take k xs @ drop (Suc k) xs)"
    and ok': "alloc_ok m' (nodes_of L' (take k ps @ drop (Suc k) ps))"
    and ev: "evolves m L ps m' L' (take k ps @ drop (Suc k) ps)"
    by (elim exE conjE)
  have len: "length ps = length xs" using il by (rule is_list_length(1))
  have c: "counts x m m' xs (take k xs @ drop (Suc k) xs)"
    using av ins k len by (simp add: counts_def)
  have "refines x (Inr ()) m L ps xs m' L'"
    unfolding refines_def using il' ok' ev ab c by auto
  then show ?thesis using r0 by simp
qed

lemma wrap_insert:
  "(case List_insert throws it v s of (Inl e, s1) \<Rightarrow> (Inl e, s1) | (Inr _, s1) \<Rightarrow> (Inr (), s1)) = (r, L', m')
   \<Longrightarrow> \<exists>r0. List_insert throws it v s = (r0, L', m') \<and> r = (case r0 of Inl e \<Rightarrow> Inl e | Inr _ \<Rightarrow> Inr ())"
  by (cases "List_insert throws it v s") (auto split: sum.splits)

lemma wrap_erase:
  "(case List_erase it s of (Inl e, s1) \<Rightarrow> (Inl e, s1) | (Inr _, s1) \<Rightarrow> (Inr (), s1)) = (r, L', m')
   \<Longrightarrow> \<exists>r0. List_erase it s = (r0, L', m') \<and> r = (case r0 of Inl e \<Rightarrow> Inl e | Inr _ \<Rightarrow> Inr ())"
  by (cases "List_erase it s") (auto split: sum.splits)

lemma push_front_refines:
  assumes il: "is_list m L ps xs" and ok: "alloc_ok m (nodes_of L ps)"
    and run: "List_push_front throws v (L, m) = (r, L', m')"
  shows "r \<noteq> Inl Undefined \<and> refines (PushFront v) r m L ps xs m' L'"
proof -
  have b: "List_begin (L, m) = Inr ((ps @ [end_L L]) ! 0)"
    using is_list_begin [OF il] by (simp add: hd_conv_nth)
  have "(case List_insert throws ((ps @ [end_L L]) ! 0) v (L, m) of
           (Inl e, s1) \<Rightarrow> (Inl e, s1) | (Inr _, s1) \<Rightarrow> (Inr (), s1)) = (r, L', m')"
    using run b by (simp add: List_push_front_def)
  then have "\<exists>r0. List_insert throws ((ps @ [end_L L]) ! 0) v (L, m) = (r0, L', m') \<and>
      r = (case r0 of Inl e \<Rightarrow> Inl e | Inr _ \<Rightarrow> Inr ())"
    by (rule wrap_insert)
  then obtain r0 where r0: "List_insert throws ((ps @ [end_L L]) ! 0) v (L, m) = (r0, L', m')"
    and r: "r = (case r0 of Inl e \<Rightarrow> Inl e | Inr _ \<Rightarrow> Inr ())"
    by (elim exE conjE)
  have ab: "abs_op (PushFront v) xs = Some (take 0 xs @ v # drop 0 xs)" by simp
  have "r0 \<noteq> Inl Undefined \<and>
         refines (PushFront v) (case r0 of Inl e \<Rightarrow> Inl e | Inr _ \<Rightarrow> Inr ()) m L ps xs m' L'"
    using il ok _ r0 ab by (rule insertion_refines) (simp_all add: is_insertion_def)
  then show ?thesis using r by (auto split: sum.splits)
qed

lemma push_back_refines:
  assumes il: "is_list m L ps xs" and ok: "alloc_ok m (nodes_of L ps)"
    and run: "List_push_back throws v (L, m) = (r, L', m')"
  shows "r \<noteq> Inl Undefined \<and> refines (PushBack v) r m L ps xs m' L'"
proof -
  have len: "length ps = length xs" using il by (rule is_list_length(1))
  have e: "List_end L = (ps @ [end_L L]) ! length ps" by (simp add: List_end_def)
  have "(case List_insert throws ((ps @ [end_L L]) ! length ps) v (L, m) of
           (Inl e, s1) \<Rightarrow> (Inl e, s1) | (Inr _, s1) \<Rightarrow> (Inr (), s1)) = (r, L', m')"
    using run unfolding List_push_back_def fst_conv e .
  then have "\<exists>r0. List_insert throws ((ps @ [end_L L]) ! length ps) v (L, m) = (r0, L', m') \<and>
      r = (case r0 of Inl e \<Rightarrow> Inl e | Inr _ \<Rightarrow> Inr ())"
    by (rule wrap_insert)
  then obtain r0 where r0: "List_insert throws ((ps @ [end_L L]) ! length ps) v (L, m) = (r0, L', m')"
    and r: "r = (case r0 of Inl e \<Rightarrow> Inl e | Inr _ \<Rightarrow> Inr ())"
    by (elim exE conjE)
  have ab: "abs_op (PushBack v) xs = Some (take (length ps) xs @ v # drop (length ps) xs)"
    using len by simp
  have "r0 \<noteq> Inl Undefined \<and>
         refines (PushBack v) (case r0 of Inl e \<Rightarrow> Inl e | Inr _ \<Rightarrow> Inr ()) m L ps xs m' L'"
    using il ok _ r0 ab by (rule insertion_refines) (simp_all add: is_insertion_def)
  then show ?thesis using r by (auto split: sum.splits)
qed

lemma refines_fail:
  assumes il: "is_list m L ps xs" and ok: "alloc_ok m (nodes_of L ps)"
    and run: "List_insert throws ptr v (L, m) = (Inl e, L', m')" and e: "e \<noteq> Undefined"
  shows "refines x (Inl e) m L ps xs m' L'"
proof -
  have "L' = L \<and> is_list m' L ps xs \<and> alloc_ok m' (nodes_of L ps) \<and> evolves m L ps m' L ps \<and>
         length (avail m') \<le> length (avail m)"
    using il ok run e by (rule List_insert_fail)
  then show ?thesis unfolding refines_def by auto
qed

lemma insert_at_refines:
  assumes il: "is_list m L ps xs" and ok: "alloc_ok m (nodes_of L ps)"
    and run: "call_op throws (InsertAt k v) (L, m) = (r, L', m')" and d: "r \<noteq> Inl Undefined"
  shows "refines (InsertAt k v) r m L ps xs m' L'"
proof -
  have len: "length ps = length xs" using il by (rule is_list_length(1))
  note pos = position_spec [OF il, of k]
  have k: "k \<le> Suc (length ps)"
  proof (rule ccontr)
    assume "\<not> k \<le> Suc (length ps)"
    then have "position (L, m) k = Inl Undefined" using pos by simp
    then have "r = Inl Undefined" using run by (simp add: call_op_def)
    then show False using d by simp
  qed
  then have p: "position (L, m) k = Inr (((ps @ [end_L L]) @ [0]) ! k)" using pos by simp
  have "(case List_insert throws (((ps @ [end_L L]) @ [0]) ! k) v (L, m) of
           (Inl e, s1) \<Rightarrow> (Inl e, s1) | (Inr _, s1) \<Rightarrow> (Inr (), s1)) = (r, L', m')"
    using run p by (simp add: call_op_def)
  then have "\<exists>r0. List_insert throws (((ps @ [end_L L]) @ [0]) ! k) v (L, m) = (r0, L', m') \<and>
      r = (case r0 of Inl e \<Rightarrow> Inl e | Inr _ \<Rightarrow> Inr ())"
    by (rule wrap_insert)
  then obtain r0 where r0: "List_insert throws (((ps @ [end_L L]) @ [0]) ! k) v (L, m) = (r0, L', m')"
    and r: "r = (case r0 of Inl e \<Rightarrow> Inl e | Inr _ \<Rightarrow> Inr ())"
    by (elim exE conjE)
  show ?thesis
  proof (cases "k \<le> length ps")
    case True
    then have nth: "((ps @ [end_L L]) @ [0]) ! k = (ps @ [end_L L]) ! k"
      by (simp add: nth_append)
    have r0': "List_insert throws ((ps @ [end_L L]) ! k) v (L, m) = (r0, L', m')"
      using r0 nth by simp
    have ab: "abs_op (InsertAt k v) xs = Some (take k xs @ v # drop k xs)"
      using True len by simp
    have "r0 \<noteq> Inl Undefined \<and>
         refines (InsertAt k v) (case r0 of Inl e \<Rightarrow> Inl e | Inr _ \<Rightarrow> Inr ()) m L ps xs m' L'"
      using il ok True r0' ab by (rule insertion_refines) (simp add: is_insertion_def)
    then show ?thesis using r by simp
  next
    case False
    then have "k = Suc (length ps)" using k by simp
    then have nth: "((ps @ [end_L L]) @ [0]) ! k = 0" by (simp add: nth_append)
    have r0': "List_insert throws 0 v (L, m) = (r0, L', m')" using r0 nth by simp
    have "fst (List_insert throws 0 v (L, m)) \<noteq> Inr it" for it by (rule List_insert_null)
    then have "r0 \<noteq> Inr it" for it using r0' by simp
    then obtain e where e: "r0 = Inl e" by (cases r0) auto
    then have re: "r = Inl e" using r by simp
    then have "e \<noteq> Undefined" using d by simp
    moreover have "List_insert throws 0 v (L, m) = (Inl e, L', m')" using r0' e by simp
    ultimately have "refines (InsertAt k v) (Inl e) m L ps xs m' L'"
      using il ok by (intro refines_fail)
    then show ?thesis using re by simp
  qed
qed

lemma erase_at_refines:
  assumes il: "is_list m L ps xs" and ok: "alloc_ok m (nodes_of L ps)"
    and run: "call_op throws (EraseAt k) (L, m) = (r, L', m')" and d: "r \<noteq> Inl Undefined"
  shows "refines (EraseAt k) r m L ps xs m' L'"
proof -
  have len: "length ps = length xs" using il by (rule is_list_length(1))
  note pos = position_spec [OF il, of k]
  have k: "k \<le> Suc (length ps)"
  proof (rule ccontr)
    assume "\<not> k \<le> Suc (length ps)"
    then have "position (L, m) k = Inl Undefined" using pos by simp
    then have "r = Inl Undefined" using run by (simp add: call_op_def)
    then show False using d by simp
  qed
  then have p: "position (L, m) k = Inr (((ps @ [end_L L]) @ [0]) ! k)" using pos by simp
  have "(case List_erase (((ps @ [end_L L]) @ [0]) ! k) (L, m) of
           (Inl e, s1) \<Rightarrow> (Inl e, s1) | (Inr _, s1) \<Rightarrow> (Inr (), s1)) = (r, L', m')"
    using run p by (simp add: call_op_def)
  then have "\<exists>r0. List_erase (((ps @ [end_L L]) @ [0]) ! k) (L, m) = (r0, L', m') \<and>
      r = (case r0 of Inl e \<Rightarrow> Inl e | Inr _ \<Rightarrow> Inr ())"
    by (rule wrap_erase)
  then obtain r0 where r0: "List_erase (((ps @ [end_L L]) @ [0]) ! k) (L, m) = (r0, L', m')"
    and r: "r = (case r0 of Inl e \<Rightarrow> Inl e | Inr _ \<Rightarrow> Inr ())"
    by (elim exE conjE)
  have klt: "k < length ps"
  proof (rule ccontr)
    assume "\<not> k < length ps"
    then consider "k = length ps" | "k = Suc (length ps)" using k by linarith
    then have "fst (List_erase (((ps @ [end_L L]) @ [0]) ! k) (L, m)) = Inl Undefined"
    proof cases
      case 1
      then have "((ps @ [end_L L]) @ [0]) ! k = end_L L" by (simp add: nth_append)
      then show ?thesis using List_erase_end [OF il] by simp
    next
      case 2
      then have "((ps @ [end_L L]) @ [0]) ! k = 0" by (simp add: nth_append)
      then show ?thesis using List_erase_null [of "(L, m)"] by simp
    qed
    then have "r0 = Inl Undefined" using r0 by simp
    then show False using r d by simp
  qed
  then have nth: "((ps @ [end_L L]) @ [0]) ! k = ps ! k" by (simp add: nth_append)
  have r0': "List_erase (ps ! k) (L, m) = (r0, L', m')" using r0 nth by simp
  have ab: "abs_op (EraseAt k) xs = Some (take k xs @ drop (Suc k) xs)" using klt len by simp
  have "(\<exists>it. r0 = Inr it) \<and> refines (EraseAt k) (Inr ()) m L ps xs m' L'"
    using il ok klt r0' ab by (rule erasure_refines) (simp add: is_insertion_def)
  then show ?thesis using r by auto
qed

lemma refines_unchanged:
  assumes il: "is_list m L ps xs" and ok: "alloc_ok m (nodes_of L ps)"
    and ab: "abs_op x xs = Some xs" and ins: "\<not> is_insertion x"
  shows "refines x (Inr ()) m L ps xs m L"
proof -
  have "counts x m m xs xs" using ins by (simp add: counts_def)
  then have "is_list m L ps xs \<and> alloc_ok m (nodes_of L ps) \<and> evolves m L ps m L ps \<and>
    (case (Inr () :: error + unit) of Inr _ \<Rightarrow> abs_op x xs = Some xs \<and> counts x m m xs xs | Inl e \<Rightarrow> xs = xs)"
    using il ok ab by (simp add: evolves_refl)
  then show ?thesis unfolding refines_def by (intro exI)
qed

lemma pop_front_refines:
  assumes il: "is_list m L ps xs" and ok: "alloc_ok m (nodes_of L ps)"
    and run: "List_pop_front (L, m) = (r, L', m')"
  shows "r \<noteq> Inl Undefined \<and> refines PopFront r m L ps xs m' L'"
proof (cases "size_L L = 0")
  case True
  then have xs: "xs = []" using is_list_size_zero [OF il] by simp
  have "List_pop_front (L, m) = (Inr (), L, m)" using True by (rule pop_empty(1))
  then have r: "r = Inr ()" "L' = L" "m' = m" using run by simp_all
  have "refines PopFront (Inr ()) m L ps xs m L"
    using il ok by (rule refines_unchanged) (simp_all add: xs is_insertion_def)
  then show ?thesis using r by simp
next
  case False
  then have xs: "xs \<noteq> []" using is_list_size_zero [OF il] by simp
  have len: "length ps = length xs" using il by (rule is_list_length(1))
  then have ps: "ps \<noteq> []" using xs by auto
  have b: "List_begin (L, m) = Inr (ps ! 0)"
    using is_list_begin [OF il] ps by (simp add: hd_append hd_conv_nth)
  have "(case List_erase (ps ! 0) (L, m) of
           (Inl e, s1) \<Rightarrow> (Inl e, s1) | (Inr _, s1) \<Rightarrow> (Inr (), s1)) = (r, L', m')"
    using run b False by (simp add: List_pop_front_def)
  then have "\<exists>r0. List_erase (ps ! 0) (L, m) = (r0, L', m') \<and>
      r = (case r0 of Inl e \<Rightarrow> Inl e | Inr _ \<Rightarrow> Inr ())"
    by (rule wrap_erase)
  then obtain r0 where r0: "List_erase (ps ! 0) (L, m) = (r0, L', m')"
    and r: "r = (case r0 of Inl e \<Rightarrow> Inl e | Inr _ \<Rightarrow> Inr ())"
    by (elim exE conjE)
  have k: "0 < length ps" using ps by simp
  have ab: "abs_op PopFront xs = Some (take 0 xs @ drop (Suc 0) xs)" by (simp add: drop_Suc)
  have "(\<exists>it. r0 = Inr it) \<and> refines PopFront (Inr ()) m L ps xs m' L'"
    using il ok k r0 ab by (rule erasure_refines) (simp add: is_insertion_def)
  then show ?thesis using r by auto
qed

lemma pop_back_refines:
  assumes il: "is_list m L ps xs" and ok: "alloc_ok m (nodes_of L ps)"
    and run: "List_pop_back (L, m) = (r, L', m')"
  shows "r \<noteq> Inl Undefined \<and> refines PopBack r m L ps xs m' L'"
proof (cases "size_L L = 0")
  case True
  then have xs: "xs = []" using is_list_size_zero [OF il] by simp
  have "List_pop_back (L, m) = (Inr (), L, m)" using True by (rule pop_empty(2))
  then have r: "r = Inr ()" "L' = L" "m' = m" using run by simp_all
  have "refines PopBack (Inr ()) m L ps xs m L"
    using il ok by (rule refines_unchanged) (simp_all add: xs is_insertion_def)
  then show ?thesis using r by simp
next
  case False
  then have xs: "xs \<noteq> []" using is_list_size_zero [OF il] by simp
  have len: "length ps = length xs" using il by (rule is_list_length(1))
  then have ps: "ps \<noteq> []" using xs by auto
  obtain n where n: "deref m (end_L L) = Some n" "prev n = last (begin_L L # ps)"
    using is_list_prev_end [OF il] by blast
  have pn: "prev n = ps ! (length ps - 1)" using n(2) ps by (simp add: last_conv_nth)
  have "(case List_erase (ps ! (length ps - 1)) (L, m) of
           (Inl e, s1) \<Rightarrow> (Inl e, s1) | (Inr _, s1) \<Rightarrow> (Inr (), s1)) = (r, L', m')"
    using run n(1) pn False by (simp add: List_pop_back_def List_end_def)
  then have "\<exists>r0. List_erase (ps ! (length ps - 1)) (L, m) = (r0, L', m') \<and>
      r = (case r0 of Inl e \<Rightarrow> Inl e | Inr _ \<Rightarrow> Inr ())"
    by (rule wrap_erase)
  then obtain r0 where r0: "List_erase (ps ! (length ps - 1)) (L, m) = (r0, L', m')"
    and r: "r = (case r0 of Inl e \<Rightarrow> Inl e | Inr _ \<Rightarrow> Inr ())"
    by (elim exE conjE)
  have k: "length ps - 1 < length ps" using ps by simp
  have ab: "abs_op PopBack xs = Some (take (length ps - 1) xs @ drop (Suc (length ps - 1)) xs)"
    using xs len by (simp add: butlast_conv_take)
  have "(\<exists>it. r0 = Inr it) \<and> refines PopBack (Inr ()) m L ps xs m' L'"
    using il ok k r0 ab by (rule erasure_refines) (simp add: is_insertion_def)
  then show ?thesis using r by auto
qed

lemma call_op_refines:
  assumes il: "is_list m L ps xs" and ok: "alloc_ok m (nodes_of L ps)"
    and run: "call_op throws x (L, m) = (r, L', m')" and d: "r \<noteq> Inl Undefined"
  shows "refines x r m L ps xs m' L'"
proof (cases x)
  case (PushFront v)
  then have "List_push_front throws v (L, m) = (r, L', m')" using run by (simp add: call_op_def)
  with il ok have "r \<noteq> Inl Undefined \<and> refines (PushFront v) r m L ps xs m' L'"
    by (rule push_front_refines)
  then show ?thesis using PushFront by simp
next
  case (PushBack v)
  then have "List_push_back throws v (L, m) = (r, L', m')" using run by (simp add: call_op_def)
  with il ok have "r \<noteq> Inl Undefined \<and> refines (PushBack v) r m L ps xs m' L'"
    by (rule push_back_refines)
  then show ?thesis using PushBack by simp
next
  case (InsertAt k v)
  then have "call_op throws (InsertAt k v) (L, m) = (r, L', m')" using run by simp
  with il ok have "refines (InsertAt k v) r m L ps xs m' L'" using d by (rule insert_at_refines)
  then show ?thesis using InsertAt by simp
next
  case PopFront
  then have "List_pop_front (L, m) = (r, L', m')" using run by (simp add: call_op_def)
  with il ok have "r \<noteq> Inl Undefined \<and> refines PopFront r m L ps xs m' L'"
    by (rule pop_front_refines)
  then show ?thesis using PopFront by simp
next
  case PopBack
  then have "List_pop_back (L, m) = (r, L', m')" using run by (simp add: call_op_def)
  with il ok have "r \<noteq> Inl Undefined \<and> refines PopBack r m L ps xs m' L'"
    by (rule pop_back_refines)
  then show ?thesis using PopBack by simp
next
  case (EraseAt k)
  then have "call_op throws (EraseAt k) (L, m) = (r, L', m')" using run by simp
  with il ok have "refines (EraseAt k) r m L ps xs m' L'" using d by (rule erase_at_refines)
  then show ?thesis using EraseAt by simp
qed

subsection \<open>The constructor and the traversals\<close>

text \<open>
  \<^verbatim>\<open>List(const Allocator&)\<close> makes a well-formed empty list of the first two addresses
  the allocator hands out. On a well-formed list the forward traversal ends and yields
  the elements, the backward traversal ends and yields them in reverse order.
\<close>

lemma List_ctor_run:
  assumes av: "avail m = b # e # av" and d: "distinct (avail m)" and z: "0 \<notin> set (avail m)"
  shows "\<exists>m'. List_ctor m = (Inr \<lparr>size_L = 0, begin_L = b, end_L = e\<rparr>, m') \<and> avail m' = av \<and>
           cells m' b = Some \<lparr>elem_N = None, next = e, prev = 0\<rparr> \<and>
           cells m' e = Some \<lparr>elem_N = None, next = 0, prev = b\<rparr> \<and>
           (\<forall>p. p \<noteq> b \<and> p \<noteq> e \<longrightarrow> cells m' p = cells m p)"
proof -
  have ne: "b \<noteq> e" "b \<noteq> 0" "e \<noteq> 0" using av d z by auto
  show ?thesis using av ne
    by (simp add: List_ctor_def alloc_node_def deref_def set_next_def set_prev_def Let_def)
qed

lemma List_ctor_spec:
  assumes av: "avail m = b # e # av" and d: "distinct (avail m)" and z: "0 \<notin> set (avail m)"
  shows "\<exists>m'. List_ctor m = (Inr \<lparr>size_L = 0, begin_L = b, end_L = e\<rparr>, m') \<and> avail m' = av \<and>
           is_list m' \<lparr>size_L = 0, begin_L = b, end_L = e\<rparr> [] [] \<and>
           alloc_ok m' (nodes_of \<lparr>size_L = 0, begin_L = b, end_L = e\<rparr> []) \<and>
           (\<forall>p. p \<noteq> b \<and> p \<noteq> e \<longrightarrow> cells m' p = cells m p)"
proof -
  have ne: "b \<noteq> e" "b \<noteq> 0" "e \<noteq> 0" using av d z by auto
  obtain m' where run: "List_ctor m = (Inr \<lparr>size_L = 0, begin_L = b, end_L = e\<rparr>, m')"
    and av': "avail m' = av"
    and cb: "cells m' b = Some \<lparr>elem_N = None, next = e, prev = 0\<rparr>"
    and ce: "cells m' e = Some \<lparr>elem_N = None, next = 0, prev = b\<rparr>"
    and fr: "\<forall>p. p \<noteq> b \<and> p \<noteq> e \<longrightarrow> cells m' p = cells m p"
    using List_ctor_run [OF av d z] by blast
  have il: "is_list m' \<lparr>size_L = 0, begin_L = b, end_L = e\<rparr> [] []"
    using ne cb ce by (simp add: is_list_def nodes_of_def elem_at_def)
  have ok: "alloc_ok m' (nodes_of \<lparr>size_L = 0, begin_L = b, end_L = e\<rparr> [])"
    using av av' d z by (auto simp: alloc_ok_def nodes_of_def)
  show ?thesis using run av' il ok fr by blast
qed

lemma List_ctor_fail:
  assumes "length (avail m) < 2"
  shows "\<exists>m'. List_ctor m = (Inl BadAlloc, m')"
proof (cases "avail m")
  case Nil
  then show ?thesis by (simp add: List_ctor_def alloc_node_def)
next
  case (Cons b av)
  then have "av = []" using assms by simp
  then show ?thesis using Cons by (simp add: List_ctor_def alloc_node_def)
qed

lemma collect_path:
  assumes "path next (cells m) x (ps @ [e]) y" "distinct (ps @ [e])"
    "map (elem_at (cells m)) ps = map Some xs"
  shows "collect m x e out = Some (Inr (out @ xs))"
  using assms
proof (induction ps arbitrary: x xs out)
  case Nil
  then have "x = e" "xs = []" by simp_all
  then show ?case by (simp add: collect.simps)
next
  case (Cons p ps)
  from Cons.prems(1) obtain n where x: "x = p" "p \<noteq> 0" and c: "cells m p = Some n"
    and rest: "path next (cells m) (next n) (ps @ [e]) y"
    unfolding append_Cons path_Cons_iff by blast
  from Cons.prems(3) obtain x0 xs' where xs: "xs = x0 # xs'" and e0: "elem_at (cells m) p = Some x0"
    and es: "map (elem_at (cells m)) ps = map Some xs'"
    by (cases xs) auto
  have pe: "p \<noteq> e" and dr: "distinct (ps @ [e])" using Cons.prems(2) by auto
  have el: "elem_N n = Some x0" using e0 c by (simp add: elem_at_def)
  have "collect m (next n) e (out @ [x0]) = Some (Inr ((out @ [x0]) @ xs'))"
    using rest dr es by (rule Cons.IH)
  then show ?case
    using x pe c el xs by (subst collect.simps) (simp add: deref_def)
qed

lemma forward_spec:
  assumes il: "is_list m L ps xs"
  shows "forward (L, m) = Some (Inr xs)"
proof -
  have b: "List_begin (L, m) = Inr (hd (ps @ [end_L L]))" using il by (rule is_list_begin)
  have "path next (cells m) (begin_L L) ([begin_L L] @ (ps @ [end_L L])) 0"
    and d: "distinct (ps @ [end_L L])" and el: "map (elem_at (cells m)) ps = map Some xs"
    using il by (simp_all add: is_list_def nodes_of_def)
  then obtain y where "path next (cells m) y (ps @ [end_L L]) 0"
    unfolding path_append by blast
  moreover from this have "y = hd (ps @ [end_L L])" by (rule path_start) simp
  ultimately have "path next (cells m) (hd (ps @ [end_L L])) (ps @ [end_L L]) 0" by simp
  then have "collect m (hd (ps @ [end_L L])) (end_L L) [] = Some (Inr ([] @ xs))"
    using d el by (rule collect_path)
  then show ?thesis using b by (simp add: forward_def List_end_def)
qed

lemma rcollect_path:
  assumes "path prev (cells m) x (bs @ [t]) y" "distinct (bs @ [t])"
    "map (elem_at (cells m)) (tl (bs @ [t])) = map Some ys"
  shows "rcollect m x t out = Some (Inr (out @ ys))"
  using assms
proof (induction bs arbitrary: x ys out)
  case Nil
  then have "x = t" "ys = []" by simp_all
  then show ?case by (simp add: rcollect.simps)
next
  case (Cons b bs)
  from Cons.prems(1) obtain n where x: "x = b" "b \<noteq> 0" and c: "cells m b = Some n"
    and rest: "path prev (cells m) (prev n) (bs @ [t]) y"
    unfolding append_Cons path_Cons_iff by blast
  have bt: "b \<noteq> t" and dr: "distinct (bs @ [t])" using Cons.prems(2) by auto
  have hd: "prev n = hd (bs @ [t])" using rest by (rule path_start) simp
  obtain q qs where q: "bs @ [t] = q # qs" by (cases "bs @ [t]") auto
  then have pq: "prev n = q" using hd by simp
  from rest obtain pn where q0: "q \<noteq> 0" and cq: "cells m q = Some pn"
    unfolding q path_Cons_iff by blast
  from Cons.prems(3) have "map (elem_at (cells m)) (q # qs) = map Some ys" using q by simp
  then obtain y0 ys' where ys: "ys = y0 # ys'" and e0: "elem_at (cells m) q = Some y0"
    and es: "map (elem_at (cells m)) qs = map Some ys'"
    by (cases ys) auto
  have el: "elem_N pn = Some y0" using e0 cq by (simp add: elem_at_def)
  have es': "map (elem_at (cells m)) (tl (bs @ [t])) = map Some ys'" using es q by simp
  have "rcollect m (prev n) t (out @ [y0]) = Some (Inr ((out @ [y0]) @ ys'))"
    using rest dr es' by (rule Cons.IH)
  then show ?case
    using x bt c pq q0 cq el ys by (subst rcollect.simps) (simp add: deref_def)
qed

lemma backward_spec:
  assumes il: "is_list m L ps xs"
  shows "backward (L, m) = Some (Inr (rev xs))"
proof -
  have b: "List_begin (L, m) = Inr (hd (ps @ [end_L L]))" using il by (rule is_list_begin)
  then have re: "List_rend (L, m) = Inr (hd (ps @ [end_L L]))"
    by (simp add: List_rend_def List_begin_def)
  have pp: "path prev (cells m) (end_L L) (end_L L # rev ps @ [begin_L L]) 0"
    and d: "distinct (begin_L L # ps @ [end_L L])"
    and el: "map (elem_at (cells m)) ps = map Some xs"
    using il by (simp_all add: is_list_def nodes_of_def)
  have el': "map (elem_at (cells m)) (rev ps) = map Some (rev xs)"
    using el by (simp add: rev_map [symmetric])
  have "rcollect m (end_L L) (hd (ps @ [end_L L])) [] = Some (Inr ([] @ rev xs))"
  proof (cases ps)
    case Nil
    then have "xs = []" using el by simp
    then show ?thesis using Nil by (simp add: rcollect.simps)
  next
    case (Cons p rest)
    have "path prev (cells m) (end_L L) (((end_L L # rev rest) @ [p]) @ [begin_L L]) 0"
      using pp Cons by simp
    then obtain y where py: "path prev (cells m) (end_L L) ((end_L L # rev rest) @ [p]) y"
      unfolding path_append [of _ _ _ "(end_L L # rev rest) @ [p]"] by blast
    have dd: "distinct ((end_L L # rev rest) @ [p])" using d Cons by auto
    have ee: "map (elem_at (cells m)) (tl ((end_L L # rev rest) @ [p])) = map Some (rev xs)"
      using el' Cons by simp
    have "rcollect m (end_L L) p [] = Some (Inr ([] @ rev xs))"
      using py dd ee by (rule rcollect_path)
    then show ?thesis using Cons by simp
  qed
  then show ?thesis using re by (simp add: backward_def List_rbegin_def)
qed

subsection \<open>Runs of a client\<close>

lemma list_step_refines:
  assumes il: "is_list (mem st) (lst st) ps xs" and ok: "alloc_ok (mem st) (nodes_of (lst st) ps)"
    and step: "list_step throws x st = Some st'"
  shows "\<exists>ps' xs'. is_list (mem st') (lst st') ps' xs' \<and>
           alloc_ok (mem st') (nodes_of (lst st') ps') \<and>
           evolves (mem st) (lst st) ps (mem st') (lst st') ps' \<and>
           length xs' + removed st' + inserted st = length xs + removed st + inserted st'"
proof -
  obtain r L' m' where run: "call_op throws x (lst st, mem st) = (r, L', m')"
    by (cases "call_op throws x (lst st, mem st)") auto
  have d: "r \<noteq> Inl Undefined"
  proof
    assume "r = Inl Undefined"
    then have "list_step throws x st = None" using run by (simp add: list_step_def)
    then show False using step by simp
  qed
  have "refines x r (mem st) (lst st) ps xs m' L'"
    using il ok run d by (rule call_op_refines)
  then obtain ps' xs' where il': "is_list m' L' ps' xs'" and ok': "alloc_ok m' (nodes_of L' ps')"
    and ev: "evolves (mem st) (lst st) ps m' L' ps'"
    and res: "case r of Inr _ \<Rightarrow> abs_op x xs = Some xs' \<and> counts x (mem st) m' xs xs' | Inl e \<Rightarrow> xs' = xs"
    unfolding refines_def by blast
  show ?thesis
  proof (cases r)
    case (Inl e)
    then have e: "e \<noteq> Undefined" using d by simp
    have st': "st' = st\<lparr>lst := L', mem := m'\<rparr>"
      using step run Inl e by (cases e) (simp_all add: list_step_def)
    have "xs' = xs" using res Inl by simp
    then show ?thesis using il' ok' ev unfolding st'
      by (intro exI [of _ ps'] exI [of _ xs']) simp
  next
    case (Inr u)
    have st': "st' = st\<lparr>lst := L', mem := m',
                  inserted := inserted st + (if is_insertion x then 1 else 0),
                  removed := removed st + (if length (avail m') > length (avail (mem st)) then 1 else 0)\<rparr>"
      using step run Inr by (simp add: list_step_def)
    have "counts x (mem st) m' xs xs'" using res Inr by simp
    then have "length xs' + removed st' + inserted st = length xs + removed st + inserted st'"
      unfolding counts_def st' by simp
    then show ?thesis using il' ok' ev unfolding st'
      by (intro exI [of _ ps'] exI [of _ xs']) simp
  qed
qed

lemma list_run_refines:
  assumes "is_list (mem st) (lst st) ps xs" "alloc_ok (mem st) (nodes_of (lst st) ps)"
    "list_run throws ops st = Some st'"
  shows "\<exists>ps' xs'. is_list (mem st') (lst st') ps' xs' \<and>
           alloc_ok (mem st') (nodes_of (lst st') ps') \<and>
           evolves (mem st) (lst st) ps (mem st') (lst st') ps' \<and>
           length xs' + removed st' + inserted st = length xs + removed st + inserted st'"
  using assms
proof (induction ops arbitrary: st ps xs)
  case Nil
  then have "st' = st" by simp
  then show ?case using Nil.prems(1,2)
    by (intro exI [of _ ps] exI [of _ xs]) (simp add: evolves_refl)
next
  case (Cons x ops)
  from Cons.prems(3) obtain st1 where s1: "list_step throws x st = Some st1"
    and r1: "list_run throws ops st1 = Some st'"
    by (auto split: option.splits)
  from list_step_refines [OF Cons.prems(1,2) s1]
  obtain ps1 xs1 where il1: "is_list (mem st1) (lst st1) ps1 xs1"
    and ok1: "alloc_ok (mem st1) (nodes_of (lst st1) ps1)"
    and ev1: "evolves (mem st) (lst st) ps (mem st1) (lst st1) ps1"
    and c1: "length xs1 + removed st1 + inserted st = length xs + removed st + inserted st1"
    by blast
  from Cons.IH [OF il1 ok1 r1]
  obtain ps' xs' where il': "is_list (mem st') (lst st') ps' xs'"
    and ok': "alloc_ok (mem st') (nodes_of (lst st') ps')"
    and ev': "evolves (mem st1) (lst st1) ps1 (mem st') (lst st') ps'"
    and c': "length xs' + removed st' + inserted st1 = length xs1 + removed st1 + inserted st'"
    by blast
  have ev: "evolves (mem st) (lst st) ps (mem st') (lst st') ps'"
    using ev1 ev' by (rule evolves_trans)
  have "length xs' + removed st' + inserted st = length xs + removed st + inserted st'"
    using c1 c' by linarith
  then show ?case using il' ok' ev by blast
qed




subsection \<open>The example of the specification\<close>

lemma push_back_spec:
  assumes il: "is_list m L ps xs" and ok: "alloc_ok m (nodes_of L ps)"
    and av: "avail m = a # av" and nt: "\<not> throws v"
  shows "\<exists>L' m'. List_push_back throws v (L, m) = (Inr (), L', m') \<and>
           is_list m' L' (ps @ [a]) (xs @ [v]) \<and> alloc_ok m' (nodes_of L' (ps @ [a])) \<and>
           avail m' = av \<and> evolves m L ps m' L' (ps @ [a])"
proof -
  have len: "length ps = length xs" using il by (rule is_list_length(1))
  have k: "length ps \<le> length ps" by simp
  have "\<exists>m'. List_insert throws ((ps @ [end_L L]) ! length ps) v (L, m) =
             (Inr (((ps @ [end_L L]) @ [0]) ! Suc (length ps)), L\<lparr>size_L := size_L L + 1\<rparr>, m') \<and>
           is_list m' (L\<lparr>size_L := size_L L + 1\<rparr>) (take (length ps) ps @ a # drop (length ps) ps)
             (take (length ps) xs @ v # drop (length ps) xs) \<and>
           alloc_ok m' (nodes_of L (take (length ps) ps @ a # drop (length ps) ps)) \<and> avail m' = av \<and>
           evolves m L ps m' (L\<lparr>size_L := size_L L + 1\<rparr>) (take (length ps) ps @ a # drop (length ps) ps)"
    using il ok k av nt by (rule insert_at_index)
  then obtain m' where run: "List_insert throws ((ps @ [end_L L]) ! length ps) v (L, m) =
             (Inr (((ps @ [end_L L]) @ [0]) ! Suc (length ps)), L\<lparr>size_L := size_L L + 1\<rparr>, m')"
    and il': "is_list m' (L\<lparr>size_L := size_L L + 1\<rparr>) (take (length ps) ps @ a # drop (length ps) ps)
             (take (length ps) xs @ v # drop (length ps) xs)"
    and ok': "alloc_ok m' (nodes_of L (take (length ps) ps @ a # drop (length ps) ps))"
    and av': "avail m' = av"
    and ev: "evolves m L ps m' (L\<lparr>size_L := size_L L + 1\<rparr>) (take (length ps) ps @ a # drop (length ps) ps)"
    by (elim exE conjE)
  have e: "List_end L = (ps @ [end_L L]) ! length ps" by (simp add: List_end_def)
  have pb: "List_push_back throws v (L, m) = (Inr (), L\<lparr>size_L := size_L L + 1\<rparr>, m')"
    unfolding List_push_back_def fst_conv e run by simp
  have il2: "is_list m' (L\<lparr>size_L := size_L L + 1\<rparr>) (ps @ [a]) (xs @ [v])"
    using il' len by simp
  have ok2: "alloc_ok m' (nodes_of (L\<lparr>size_L := size_L L + 1\<rparr>) (ps @ [a]))"
    using ok' by simp
  have ev2: "evolves m L ps m' (L\<lparr>size_L := size_L L + 1\<rparr>) (ps @ [a])"
    using ev by simp
  show ?thesis
    using pb il2 ok2 av' ev2 by (intro exI [of _ "L\<lparr>size_L := size_L L + 1\<rparr>"] exI [of _ m'] conjI)
qed

lemma erase_begin_spec:
  assumes il: "is_list m L (p # ps) (x # xs)"
  shows "\<exists>nx L' m'. List_begin (L, m) = Inr p \<and> List_erase p (L, m) = (Inr nx, L', m') \<and>
           is_list m' L' ps xs"
proof -
  have b: "List_begin (L, m) = Inr p" using is_list_begin [OF il] by simp
  have k: "0 < length (p # ps)" by simp
  from erase_at_index [OF il k]
  obtain m' where run: "List_erase ((p # ps) ! 0) (L, m) =
      (Inr (((p # ps) @ [end_L L]) ! Suc 0), L\<lparr>size_L := size_L L - 1\<rparr>, m')"
    and il': "is_list m' (L\<lparr>size_L := size_L L - 1\<rparr>) (take 0 (p # ps) @ drop (Suc 0) (p # ps))
                (take 0 (x # xs) @ drop (Suc 0) (x # xs))"
    by blast
  have r: "List_erase p (L, m) = (Inr (((p # ps) @ [end_L L]) ! Suc 0), L\<lparr>size_L := size_L L - 1\<rparr>, m')"
    using run by simp
  have i: "is_list m' (L\<lparr>size_L := size_L L - 1\<rparr>) ps xs" using il' by simp
  show ?thesis using b r i by blast
qed

text \<open>
  C8. In any store whose allocator can hand out five pairwise different non-null
  addresses, for elements \<open>1\<close>, \<open>2\<close>, \<open>3\<close> whose copies do not throw: the constructor
  and \<^verbatim>\<open>push_back(1); push_back(2); push_back(3);\<close> return; the forward traversal
  from \<^verbatim>\<open>begin()\<close> to \<^verbatim>\<open>end()\<close> then yields \<open>1, 2, 3\<close> and the traversal from \<^verbatim>\<open>rbegin()\<close> to
  \<^verbatim>\<open>rend()\<close> yields \<open>3, 2, 1\<close>; \<^verbatim>\<open>erase(begin())\<close> returns, and after it \<^verbatim>\<open>size()\<close> is 2
  and the forward traversal yields \<open>2, 3\<close>.
\<close>

theorem push_back_123_traversals:
  fixes m :: "int node_store"
  assumes d: "distinct (avail m)" and z: "0 \<notin> set (avail m)" and n: "5 \<le> length (avail m)"
    and nt: "\<not> throws 1" "\<not> throws 2" "\<not> throws 3"
  shows "\<exists>L0 m0 s1 s2 s3 it nx s4.
           List_ctor m = (Inr L0, m0) \<and>
           List_push_back throws 1 (L0, m0) = (Inr (), s1) \<and>
           List_push_back throws 2 s1 = (Inr (), s2) \<and>
           List_push_back throws 3 s2 = (Inr (), s3) \<and>
           forward s3 = Some (Inr [1, 2, 3]) \<and>
           backward s3 = Some (Inr [3, 2, 1]) \<and>
           List_begin s3 = Inr it \<and> List_erase it s3 = (Inr nx, s4) \<and>
           List_size (fst s4) = 2 \<and> forward s4 = Some (Inr [2, 3])"
proof -
  obtain b e a1 a2 a3 av where av: "avail m = b # e # a1 # a2 # a3 # av"
  proof (cases "avail m")
    case Nil then show ?thesis using n by simp
  next
    case c1: (Cons b l1)
    show ?thesis
    proof (cases l1)
      case Nil then show ?thesis using n c1 by simp
    next
      case c2: (Cons e l2)
      show ?thesis
      proof (cases l2)
        case Nil then show ?thesis using n c1 c2 by simp
      next
        case c3: (Cons a1 l3)
        show ?thesis
        proof (cases l3)
          case Nil then show ?thesis using n c1 c2 c3 by simp
        next
          case c4: (Cons a2 l4)
          show ?thesis
          proof (cases l4)
            case Nil then show ?thesis using n c1 c2 c3 c4 by simp
          next
            case c5: (Cons a3 l5)
            show ?thesis using that [of b e a1 a2 a3 l5] c1 c2 c3 c4 c5 by simp
          qed
        qed
      qed
    qed
  qed
  let ?L0 = "\<lparr>size_L = 0, begin_L = b, end_L = e\<rparr>"
  from List_ctor_spec [OF av d z]
  obtain m0 where ctor: "List_ctor m = (Inr ?L0, m0)" and av0: "avail m0 = a1 # a2 # a3 # av"
    and il0: "is_list m0 ?L0 [] []" and ok0: "alloc_ok m0 (nodes_of ?L0 [])"
    by blast
  have "\<exists>L' m'. List_push_back throws 1 (?L0, m0) = (Inr (), L', m') \<and>
           is_list m' L' ([] @ [a1]) ([] @ [1]) \<and> alloc_ok m' (nodes_of L' ([] @ [a1])) \<and>
           avail m' = a2 # a3 # av \<and> evolves m0 ?L0 [] m' L' ([] @ [a1])"
    using il0 ok0 av0 nt(1) by (rule push_back_spec)
  then obtain L1 m1 where p1: "List_push_back throws 1 (?L0, m0) = (Inr (), L1, m1)"
    and il1: "is_list m1 L1 ([] @ [a1]) ([] @ [1])" and ok1: "alloc_ok m1 (nodes_of L1 ([] @ [a1]))"
    and av1: "avail m1 = a2 # a3 # av"
    by (elim exE conjE)
  have "\<exists>L' m'. List_push_back throws 2 (L1, m1) = (Inr (), L', m') \<and>
           is_list m' L' (([] @ [a1]) @ [a2]) (([] @ [1]) @ [2]) \<and>
           alloc_ok m' (nodes_of L' (([] @ [a1]) @ [a2])) \<and>
           avail m' = a3 # av \<and> evolves m1 L1 ([] @ [a1]) m' L' (([] @ [a1]) @ [a2])"
    using il1 ok1 av1 nt(2) by (rule push_back_spec)
  then obtain L2 m2 where p2: "List_push_back throws 2 (L1, m1) = (Inr (), L2, m2)"
    and il2: "is_list m2 L2 (([] @ [a1]) @ [a2]) (([] @ [1]) @ [2])"
    and ok2: "alloc_ok m2 (nodes_of L2 (([] @ [a1]) @ [a2]))"
    and av2: "avail m2 = a3 # av"
    by (elim exE conjE)
  have "\<exists>L' m'. List_push_back throws 3 (L2, m2) = (Inr (), L', m') \<and>
           is_list m' L' ((([] @ [a1]) @ [a2]) @ [a3]) ((([] @ [1]) @ [2]) @ [3]) \<and>
           alloc_ok m' (nodes_of L' ((([] @ [a1]) @ [a2]) @ [a3])) \<and>
           avail m' = av \<and> evolves m2 L2 (([] @ [a1]) @ [a2]) m' L' ((([] @ [a1]) @ [a2]) @ [a3])"
    using il2 ok2 av2 nt(3) by (rule push_back_spec)
  then obtain L3 m3 where p3: "List_push_back throws 3 (L2, m2) = (Inr (), L3, m3)"
    and il3': "is_list m3 L3 ((([] @ [a1]) @ [a2]) @ [a3]) ((([] @ [1]) @ [2]) @ [3])"
    by (elim exE conjE)
  have il3: "is_list m3 L3 [a1, a2, a3] [1, 2, 3]" using il3' by simp
  have f3: "forward (L3, m3) = Some (Inr [1, 2, 3])" using il3 by (rule forward_spec)
  have b3: "backward (L3, m3) = Some (Inr [3, 2, 1])" using backward_spec [OF il3] by simp
  from erase_begin_spec [OF il3]
  obtain nx L4 m4 where bg: "List_begin (L3, m3) = Inr a1"
    and er: "List_erase a1 (L3, m3) = (Inr nx, L4, m4)" and il4: "is_list m4 L4 [a2, a3] [2, 3]"
    by blast
  have f4: "forward (L4, m4) = Some (Inr [2, 3])" using il4 by (rule forward_spec)
  have "size_L L4 = word_of_nat (length [2 :: int, 3])" using il4 unfolding is_list_def by blast
  then have s4: "List_size (fst (L4, m4)) = 2" by (simp add: List_size_def)
  show ?thesis
    using ctor p1 p2 p3 f3 b3 bg er s4 f4
    by (intro exI [of _ ?L0] exI [of _ m0] exI [of _ "(L1, m1)"] exI [of _ "(L2, m2)"]
        exI [of _ "(L3, m3)"] exI [of _ a1] exI [of _ nx] exI [of _ "(L4, m4)"] conjI)
qed

theorem push_back_123_traversals_witness:
  "distinct (avail \<lparr>cells = (\<lambda>_. None :: int Node option), avail = [1, 2, 3, 4, 5]\<rparr>) \<and>
   0 \<notin> set (avail \<lparr>cells = (\<lambda>_. None :: int Node option), avail = [1, 2, 3, 4, 5]\<rparr>) \<and>
   5 \<le> length (avail \<lparr>cells = (\<lambda>_. None :: int Node option), avail = [1, 2, 3, 4, 5]\<rparr>) \<and>
   (\<exists>L0 m0 s1 s2 s3 it nx s4.
      List_ctor \<lparr>cells = (\<lambda>_. None :: int Node option), avail = [1, 2, 3, 4, 5]\<rparr> = (Inr L0, m0) \<and>
      List_push_back (\<lambda>_. False) 1 (L0, m0) = (Inr (), s1) \<and>
      List_push_back (\<lambda>_. False) 2 s1 = (Inr (), s2) \<and>
      List_push_back (\<lambda>_. False) 3 s2 = (Inr (), s3) \<and>
      forward s3 = Some (Inr [1, 2, 3]) \<and>
      backward s3 = Some (Inr [3, 2, 1]) \<and>
      List_begin s3 = Inr it \<and> List_erase it s3 = (Inr nx, s4) \<and>
      List_size (fst s4) = 2 \<and> forward s4 = Some (Inr [2, 3]))"
  using push_back_123_traversals
    [of "\<lparr>cells = (\<lambda>_. None :: int Node option), avail = [1, 2, 3, 4, 5]\<rparr>" "\<lambda>_. False"]
  by simp

subsection \<open>Two lists in one store\<close>

text \<open>
  A list whose nodes are neither nodes of the list \<open>L\<close> nor free addresses of the
  allocator is left as it is by everything that \<open>L\<close> does, and stays apart from it.
\<close>

lemma evolves_other:
  assumes ev: "evolves m L ps m' L' ps'" and R: "is_list m R qs ys"
    and ap: "set (nodes_of R qs) \<inter> (set (nodes_of L ps) \<union> set (avail m)) = {}"
  shows "is_list m' R qs ys"
    and "set (nodes_of R qs) \<inter> (set (nodes_of L' ps') \<union> set (avail m')) = {}"
proof -
  have sub: "set (nodes_of L' ps') \<union> set (avail m') \<subseteq> set (nodes_of L ps) \<union> set (avail m)"
    and fr: "\<And>p. p \<notin> set (nodes_of L ps) \<union> set (avail m) \<Longrightarrow> cells m' p = cells m p"
    using ev by (simp_all add: evolves_def)
  show "is_list m' R qs ys"
  proof (rule is_list_frame [OF R])
    fix p assume "p \<in> set (nodes_of R qs)"
    then have "p \<notin> set (nodes_of L ps) \<union> set (avail m)" using ap by blast
    then show "cells m' p = cells m p" by (rule fr)
  qed
  show "set (nodes_of R qs) \<inter> (set (nodes_of L' ps') \<union> set (avail m')) = {}"
    using sub ap by blast
qed

lemma push_back_refused:
  assumes il: "is_list m L ps xs" and ok: "alloc_ok m (nodes_of L ps)"
    and rf: "avail m = [] \<or> throws v"
  shows "\<exists>e m'. List_push_back throws v (L, m) = (Inl e, L, m') \<and>
           e = (if avail m = [] then BadAlloc else CopyThrows) \<and>
           is_list m' L ps xs \<and> alloc_ok m' (nodes_of L ps) \<and> evolves m L ps m' L ps"
proof -
  have "\<exists>m'. insert_before_L throws (end_L L) v (L, m) =
          (Inl (if avail m = [] then BadAlloc else CopyThrows), L, m')"
  proof (cases "avail m")
    case Nil
    then show ?thesis using insert_before_no_memory [OF Nil] by simp
  next
    case (Cons a av)
    then have "throws v" using rf by simp
    then show ?thesis using insert_before_copy_throws [OF Cons] Cons by simp
  qed
  then obtain m' where ib: "insert_before_L throws (end_L L) v (L, m) =
          (Inl (if avail m = [] then BadAlloc else CopyThrows), L, m')"
    by (elim exE)
  have li: "List_insert throws (end_L L) v (L, m) =
          (Inl (if avail m = [] then BadAlloc else CopyThrows), L, m')"
    unfolding List_insert_def ib by simp
  have pb: "List_push_back throws v (L, m) =
          (Inl (if avail m = [] then BadAlloc else CopyThrows), L, m')"
    unfolding List_push_back_def fst_conv List_end_def li by simp
  have ne: "(if avail m = [] then BadAlloc else CopyThrows) \<noteq> Undefined" by simp
  have "L = L \<and> is_list m' L ps xs \<and> alloc_ok m' (nodes_of L ps) \<and> evolves m L ps m' L ps \<and>
         length (avail m') \<le> length (avail m)"
    using il ok li ne by (rule List_insert_fail)
  then show ?thesis using pb
    by (intro exI [of _ "if avail m = [] then BadAlloc else CopyThrows"] exI [of _ m']) simp
qed

lemma clear_loop_spec:
  assumes "is_list m L ps xs" "alloc_ok m (nodes_of L ps)"
  shows "\<exists>L' m'. clear_loop (L, m) = (Inr (), L', m') \<and> is_list m' L' [] [] \<and>
           alloc_ok m' (nodes_of L' []) \<and> avail m' = ps @ avail m \<and>
           evolves m L ps m' L' []"
  using assms
proof (induction ps arbitrary: L m xs rule: rev_induct)
  case Nil
  have "length ([] :: ptr list) = length xs" using Nil.prems(1) by (rule is_list_length(1))
  then have xs: "xs = []" by simp
  then have "size_L L = 0" using is_list_size_zero [OF Nil.prems(1)] by simp
  then have "clear_loop (L, m) = (Inr (), L, m)" by (subst clear_loop.simps) simp
  then show ?case using Nil.prems xs
    by (intro exI [of _ L] exI [of _ m]) (simp add: evolves_refl)
next
  case (snoc p ps)
  have len: "length (ps @ [p]) = length xs" using snoc.prems(1) by (rule is_list_length(1))
  then have "xs \<noteq> []" by auto
  then obtain xs' x where xs: "xs = xs' @ [x]" by (cases xs rule: rev_cases) auto
  have il: "is_list m L (ps @ [p]) (xs' @ [x])" using snoc.prems(1) xs by simp
  have nz: "size_L L \<noteq> 0" using is_list_size_zero [OF il] by simp
  let ?L1 = "L\<lparr>size_L := size_L L - 1\<rparr>"
  from List_pop_back_spec [OF il]
  obtain m1 where pb: "List_pop_back (L, m) = (Inr (), ?L1, m1)"
    and il1: "is_list m1 ?L1 ps xs'"
    and ok1': "alloc_ok m (nodes_of L (ps @ [p])) \<longrightarrow> alloc_ok m1 (nodes_of L ps)"
    and av1: "avail m1 = p # avail m"
    and fr1: "\<forall>r. r \<notin> set (nodes_of L (ps @ [p])) \<longrightarrow> cells m1 r = cells m r"
    by blast
  have ok1: "alloc_ok m1 (nodes_of ?L1 ps)" using ok1' snoc.prems(2) by simp
  have ev1: "evolves m L (ps @ [p]) m1 ?L1 ps"
    using av1 fr1 by (auto simp: evolves_def nodes_of_def)
  from snoc.IH [OF il1 ok1]
  obtain L' m' where cl: "clear_loop (?L1, m1) = (Inr (), L', m')"
    and il': "is_list m' L' [] []" and ok': "alloc_ok m' (nodes_of L' [])"
    and av': "avail m' = ps @ avail m1" and ev': "evolves m1 ?L1 ps m' L' []"
    by blast
  have c: "clear_loop (L, m) = (Inr (), L', m')"
    using nz pb cl by (subst clear_loop.simps) simp
  have ev: "evolves m L (ps @ [p]) m' L' []" using ev1 ev' by (rule evolves_trans)
  have av: "avail m' = (ps @ [p]) @ avail m" using av' av1 by simp
  show ?case using c il' ok' av ev by (intro exI [of _ L'] exI [of _ m'] conjI)
qed

subsection \<open>The loops of the copy and of the assignment\<close>

lemma copied_Nil: "copied throws n [] = 0"
  by (simp add: copied_def)

lemma copied_refused: "n = 0 \<or> throws y \<Longrightarrow> copied throws n (y # ys) = 0"
  by (auto simp: copied_def)

lemma copied_Suc: "\<not> throws y \<Longrightarrow> copied throws (Suc n) (y # ys) = Suc (copied throws n ys)"
  by (simp add: copied_def)


lemma copied_all: "copied throws n ys = length ys \<longleftrightarrow> (\<forall>y\<in>set ys. \<not> throws y) \<and> length ys \<le> n"
proof -
  have "length (takeWhile (\<lambda>y. \<not> throws y) ys) = length ys \<longleftrightarrow> (\<forall>y\<in>set ys. \<not> throws y)"
  proof (induction ys)
    case Nil
    show ?case by simp
  next
    case (Cons a ys)
    have "length (takeWhile (\<lambda>y. \<not> throws y) ys) \<le> length ys" by (rule length_takeWhile_le)
    then show ?case using Cons by auto
  qed
  moreover have "length (takeWhile (\<lambda>y. \<not> throws y) ys) \<le> length ys" by (rule length_takeWhile_le)
  ultimately show ?thesis unfolding copied_def by (auto simp: min_def)
qed

lemma is_list_elem_at:
  assumes R: "is_list m R (qs1 @ q # qs2) (ys1 @ y # ys2)" and l: "length qs1 = length ys1"
  shows "q \<noteq> end_L R \<and> (\<exists>n. deref m q = Some n \<and> elem_N n = Some y \<and> next n = hd (qs2 @ [end_L R]))"
proof -
  have d: "distinct (nodes_of R (qs1 @ q # qs2))"
    and el: "map (elem_at (cells m)) (qs1 @ q # qs2) = map Some (ys1 @ y # ys2)"
    using R by (simp_all add: is_list_def)
  have qe: "q \<noteq> end_L R" using d by (auto simp: nodes_of_def)
  have "elem_at (cells m) q = Some y" using el l by simp
  moreover obtain n where n: "deref m (hd ((q # qs2) @ [end_L R])) = Some n"
    "next n = hd (tl ((q # qs2) @ [end_L R]) @ [0])"
    using is_list_next_at [OF R] by blast
  moreover have "hd (tl ((q # qs2) @ [end_L R]) @ [0]) = hd (qs2 @ [end_L R])"
    by (cases qs2) simp_all
  ultimately show ?thesis using qe
    by (auto simp: deref_def elem_at_def split: if_splits option.splits)
qed

lemma copy_loop_spec:
  assumes "is_list m R (qs1 @ qs2) (ys1 @ ys2)" "length qs1 = length ys1"
    "is_list m L ps xs" "alloc_ok m (nodes_of L ps)"
    "set (nodes_of R (qs1 @ qs2)) \<inter> (set (nodes_of L ps) \<union> set (avail m)) = {}"
  shows "\<exists>r L' m' ps'. copy_loop throws R (hd (qs2 @ [end_L R])) (L, m) = Some (r, L', m') \<and>
      is_list m' L' ps' (xs @ take (copied throws (length (avail m)) ys2) ys2) \<and>
      alloc_ok m' (nodes_of L' ps') \<and> evolves m L ps m' L' ps' \<and>
      r = (if copied throws (length (avail m)) ys2 = length ys2 then Inr ()
           else Inl (if length (avail m) \<le> length (takeWhile (\<lambda>y. \<not> throws y) ys2)
                     then BadAlloc else CopyThrows))"
  using assms
proof (induction qs2 arbitrary: qs1 ys1 ys2 L m ps xs)
  case Nil
  have "length (qs1 @ []) = length (ys1 @ ys2)" using Nil.prems(1) by (rule is_list_length(1))
  then have ys2: "ys2 = []" using Nil.prems(2) by simp
  have c: "copy_loop throws R (hd ([] @ [end_L R])) (L, m) = Some (Inr (), L, m)"
    by (subst copy_loop.simps) (simp add: List_end_def)
  show ?case unfolding ys2 copied_Nil using c Nil.prems(3,4)
    by (intro exI [of _ "Inr ()"] exI [of _ L] exI [of _ m] exI [of _ ps]) (simp add: evolves_refl)
next
  case (Cons q qs2)
  have "length (qs1 @ q # qs2) = length (ys1 @ ys2)" using Cons.prems(1) by (rule is_list_length(1))
  then have "ys2 \<noteq> []" using Cons.prems(2) by auto
  then obtain y ys2' where ys2: "ys2 = y # ys2'" by (cases ys2) auto
  have R: "is_list m R (qs1 @ q # qs2) (ys1 @ y # ys2')" using Cons.prems(1) ys2 by simp
  from is_list_elem_at [OF R Cons.prems(2)]
  obtain n where qe: "q \<noteq> end_L R" and dn: "deref m q = Some n" and el: "elem_N n = Some y"
    by blast
  show ?case
  proof (cases "avail m = [] \<or> throws y")
    case True
    from push_back_refused [where throws = throws and v = y, OF Cons.prems(3,4) True]
    obtain e m' where pb: "List_push_back throws y (L, m) = (Inl e, L, m')"
      and e: "e = (if avail m = [] then BadAlloc else CopyThrows)"
      and il': "is_list m' L ps xs" and ok': "alloc_ok m' (nodes_of L ps)"
      and ev: "evolves m L ps m' L ps"
      by blast
    have c: "copy_loop throws R (hd ((q # qs2) @ [end_L R])) (L, m) = Some (Inl e, L, m')"
      using qe dn el pb by (subst copy_loop.simps) (simp add: List_end_def)
    have k: "copied throws (length (avail m)) (y # ys2') = 0"
      using True by (intro copied_refused) simp
    have e': "e = (if length (avail m) \<le> length (takeWhile (\<lambda>y. \<not> throws y) (y # ys2'))
                     then BadAlloc else CopyThrows)"
      using e True by auto
    show ?thesis unfolding ys2 k using c il' ok' ev e'
      by (intro exI [of _ "Inl e"] exI [of _ L] exI [of _ m'] exI [of _ ps]) simp
  next
    case False
    then obtain a av where av: "avail m = a # av" and nt: "\<not> throws y"
      by (cases "avail m") auto
    have "\<exists>L' m'. List_push_back throws y (L, m) = (Inr (), L', m') \<and>
           is_list m' L' (ps @ [a]) (xs @ [y]) \<and> alloc_ok m' (nodes_of L' (ps @ [a])) \<and>
           avail m' = av \<and> evolves m L ps m' L' (ps @ [a])"
      using Cons.prems(3,4) av nt by (rule push_back_spec)
    then obtain L1 m1 where pb: "List_push_back throws y (L, m) = (Inr (), L1, m1)"
      and il1: "is_list m1 L1 (ps @ [a]) (xs @ [y])"
      and ok1: "alloc_ok m1 (nodes_of L1 (ps @ [a]))"
      and av1: "avail m1 = av" and ev1: "evolves m L ps m1 L1 (ps @ [a])"
      by (elim exE conjE)
    have R1: "is_list m1 R (qs1 @ q # qs2) (ys1 @ y # ys2')"
      and ap1: "set (nodes_of R (qs1 @ q # qs2)) \<inter> (set (nodes_of L1 (ps @ [a])) \<union> set (avail m1)) = {}"
      using evolves_other [OF ev1 R Cons.prems(5)] by simp_all
    from is_list_elem_at [OF R1 Cons.prems(2)]
    obtain n1 where dn1: "deref m1 q = Some n1" and nx1: "next n1 = hd (qs2 @ [end_L R])"
      by blast
    have R1': "is_list m1 R ((qs1 @ [q]) @ qs2) ((ys1 @ [y]) @ ys2')" using R1 by simp
    have l1: "length (qs1 @ [q]) = length (ys1 @ [y])" using Cons.prems(2) by simp
    have ap1': "set (nodes_of R ((qs1 @ [q]) @ qs2)) \<inter> (set (nodes_of L1 (ps @ [a])) \<union> set (avail m1)) = {}"
      using ap1 by simp
    from Cons.IH [OF R1' l1 il1 ok1 ap1']
    obtain r L' m' ps' where
      cl: "copy_loop throws R (hd (qs2 @ [end_L R])) (L1, m1) = Some (r, L', m')"
      and il': "is_list m' L' ps' ((xs @ [y]) @ take (copied throws (length (avail m1)) ys2') ys2')"
      and ok': "alloc_ok m' (nodes_of L' ps')"
      and ev': "evolves m1 L1 (ps @ [a]) m' L' ps'"
      and r: "r = (if copied throws (length (avail m1)) ys2' = length ys2' then Inr ()
           else Inl (if length (avail m1) \<le> length (takeWhile (\<lambda>y. \<not> throws y) ys2')
                     then BadAlloc else CopyThrows))"
      by blast
    have c: "copy_loop throws R (hd ((q # qs2) @ [end_L R])) (L, m) = Some (r, L', m')"
      using qe dn el pb dn1 nx1 cl by (subst copy_loop.simps) (simp add: List_end_def)
    have k: "copied throws (length (avail m)) (y # ys2') = Suc (copied throws (length av) ys2')"
      using nt av by (simp add: copied_Suc)
    have ev: "evolves m L ps m' L' ps'" using ev1 ev' by (rule evolves_trans)
    have il2: "is_list m' L' ps' (xs @ take (Suc (copied throws (length av) ys2')) (y # ys2'))"
      using il' av1 by simp
    have r2: "r = (if Suc (copied throws (length av) ys2') = length (y # ys2') then Inr ()
           else Inl (if length (avail m) \<le> length (takeWhile (\<lambda>y. \<not> throws y) (y # ys2'))
                     then BadAlloc else CopyThrows))"
      using r av1 av nt by simp
    show ?thesis unfolding ys2 k using c il2 ok' ev r2
      by (intro exI [of _ r] exI [of _ L'] exI [of _ m'] exI [of _ ps'] conjI)
  qed
qed

lemma copy_spec:
  assumes R: "is_list m R qs ys" and L: "is_list m L ps xs" and ok: "alloc_ok m (nodes_of L ps)"
    and ap: "set (nodes_of R qs) \<inter> (set (nodes_of L ps) \<union> set (avail m)) = {}"
  shows "\<exists>r L' m' ps'. copy_L throws R (L, m) = Some (r, L', m') \<and>
      is_list m' L' ps' (xs @ take (copied throws (length (avail m)) ys) ys) \<and>
      alloc_ok m' (nodes_of L' ps') \<and> evolves m L ps m' L' ps' \<and>
      r = (if copied throws (length (avail m)) ys = length ys then Inr ()
           else Inl (if length (avail m) \<le> length (takeWhile (\<lambda>y. \<not> throws y) ys)
                     then BadAlloc else CopyThrows))"
proof -
  have b: "List_begin (R, m) = Inr (hd (qs @ [end_L R]))" using R by (rule is_list_begin)
  have c: "copy_L throws R (L, m) = copy_loop throws R (hd (qs @ [end_L R])) (L, m)"
    unfolding copy_L_def snd_conv b by simp
  have R': "is_list m R ([] @ qs) ([] @ ys)" using R by simp
  have ap': "set (nodes_of R ([] @ qs)) \<inter> (set (nodes_of L ps) \<union> set (avail m)) = {}"
    using ap by simp
  have l: "length ([] :: ptr list) = length ([] :: 'a list)" by simp
  show ?thesis unfolding c using R' l L ok ap' by (rule copy_loop_spec)
qed



subsection \<open>Copy construction and destruction\<close>

lemma List_dtor_spec:
  assumes il: "is_list m L ps xs" and ok: "alloc_ok m (nodes_of L ps)"
  shows "\<exists>m'. List_dtor (L, m) = (Inr (), m') \<and>
           (\<forall>p. p \<notin> set (nodes_of L ps) \<union> set (avail m) \<longrightarrow> cells m' p = cells m p)"
proof -
  from clear_loop_spec [OF il ok]
  obtain L1 m1 where cl: "clear_loop (L, m) = (Inr (), L1, m1)"
    and ev: "evolves m L ps m1 L1 []"
    by blast
  have b: "begin_L L1 = begin_L L" "end_L L1 = end_L L"
    and fr: "\<And>p. p \<notin> set (nodes_of L ps) \<union> set (avail m) \<Longrightarrow> cells m1 p = cells m p"
    using ev by (simp_all add: evolves_def)
  let ?m' = "dealloc_node (end_L L1) (dealloc_node (begin_L L1) m1)"
  have d: "List_dtor (L, m) = (Inr (), ?m')" unfolding List_dtor_def cl by simp
  have "\<forall>p. p \<notin> set (nodes_of L ps) \<union> set (avail m) \<longrightarrow> cells ?m' p = cells m p"
  proof (intro allI impI)
    fix p assume p: "p \<notin> set (nodes_of L ps) \<union> set (avail m)"
    then have "p \<noteq> begin_L L" "p \<noteq> end_L L" by (auto simp: nodes_of_def)
    then have "cells ?m' p = cells m1 p" using b by (simp add: dealloc_node_def)
    then show "cells ?m' p = cells m p" using fr [OF p] by simp
  qed
  then show ?thesis using d by blast
qed

lemma copy_ctor_spec:
  assumes R: "is_list m R qs ys" and ok: "alloc_ok m (nodes_of R qs)"
  shows "\<exists>r m1. List_copy_ctor throws R m = Some (r, m1) \<and> r \<noteq> Inl Undefined \<and>
     ((\<exists>C. r = Inr C) \<longleftrightarrow> (\<forall>y\<in>set ys. \<not> throws y) \<and> length ys + 2 \<le> length (avail m)) \<and>
     (\<forall>C. r = Inr C \<longrightarrow>
        (\<exists>cs. is_list m1 C cs ys \<and> alloc_ok m1 (nodes_of C cs) \<and> is_list m1 R qs ys \<and>
              alloc_ok m1 (nodes_of R qs) \<and>
              set (nodes_of C cs) \<inter> (set (nodes_of R qs) \<union> set (avail m1)) = {}))"
proof (cases "length (avail m) < 2")
  case True
  then obtain m' where c: "List_ctor m = (Inl BadAlloc, m')" using List_ctor_fail by blast
  have "List_copy_ctor throws R m = Some (Inl BadAlloc, m')"
    unfolding List_copy_ctor_def c by simp
  then show ?thesis using True
    by (intro exI [of _ "Inl BadAlloc"] exI [of _ m']) simp
next
  case False
  then obtain b e av where av: "avail m = b # e # av"
    by (cases "avail m"; cases "tl (avail m)") auto
  have d: "distinct (avail m)" and z: "0 \<notin> set (avail m)"
    and dj: "set (avail m) \<inter> set (nodes_of R qs) = {}"
    using ok by (simp_all add: alloc_ok_def)
  let ?L0 = "\<lparr>size_L = 0, begin_L = b, end_L = e\<rparr>"
  from List_ctor_spec [OF av d z]
  obtain m0 where c: "List_ctor m = (Inr ?L0, m0)" and av0: "avail m0 = av"
    and il0: "is_list m0 ?L0 [] []" and ok0: "alloc_ok m0 (nodes_of ?L0 [])"
    and fr0: "\<forall>p. p \<noteq> b \<and> p \<noteq> e \<longrightarrow> cells m0 p = cells m p"
    by blast
  have R0: "is_list m0 R qs ys"
  proof (rule is_list_frame [OF R])
    fix p assume "p \<in> set (nodes_of R qs)"
    then have "p \<noteq> b \<and> p \<noteq> e" using dj av by auto
    then show "cells m0 p = cells m p" using fr0 by simp
  qed
  have ap0: "set (nodes_of R qs) \<inter> (set (nodes_of ?L0 []) \<union> set (avail m0)) = {}"
    using dj av av0 by (auto simp: nodes_of_def)
  from copy_spec [OF R0 il0 ok0 ap0, of throws]
  obtain r L' m' ps' where cp: "copy_L throws R (?L0, m0) = Some (r, L', m')"
    and il': "is_list m' L' ps' ([] @ take (copied throws (length (avail m0)) ys) ys)"
    and ok': "alloc_ok m' (nodes_of L' ps')"
    and ev': "evolves m0 ?L0 [] m' L' ps'"
    and r: "r = (if copied throws (length (avail m0)) ys = length ys then Inr ()
           else Inl (if length (avail m0) \<le> length (takeWhile (\<lambda>y. \<not> throws y) ys)
                     then BadAlloc else CopyThrows))"
    by blast
  have R': "is_list m' R qs ys"
    and ap': "set (nodes_of R qs) \<inter> (set (nodes_of L' ps') \<union> set (avail m')) = {}"
    using evolves_other [OF ev' R0 ap0] by simp_all
  have all: "copied throws (length (avail m0)) ys = length ys \<longleftrightarrow>
      (\<forall>y\<in>set ys. \<not> throws y) \<and> length ys + 2 \<le> length (avail m)"
    unfolding copied_all using av av0 by simp
  show ?thesis
  proof (cases "copied throws (length (avail m0)) ys = length ys")
    case True
    then have r': "r = Inr ()" using r by simp
    have cc: "List_copy_ctor throws R m = Some (Inr L', m')"
      unfolding List_copy_ctor_def c using cp r' by simp
    have il2: "is_list m' L' ps' ys" using il' True by simp
    have okR: "alloc_ok m' (nodes_of R qs)"
      using ok' ap' by (auto simp: alloc_ok_def)
    have ap2: "set (nodes_of L' ps') \<inter> (set (nodes_of R qs) \<union> set (avail m')) = {}"
      using ok' ap' by (auto simp: alloc_ok_def)
    have "\<exists>cs. is_list m' L' cs ys \<and> alloc_ok m' (nodes_of L' cs) \<and> is_list m' R qs ys \<and>
              alloc_ok m' (nodes_of R qs) \<and>
              set (nodes_of L' cs) \<inter> (set (nodes_of R qs) \<union> set (avail m')) = {}"
      using il2 ok' R' okR ap2 by (intro exI [of _ ps'] conjI)
    then show ?thesis using cc all True
      by (intro exI [of _ "Inr L'"] exI [of _ m']) simp
  next
    case False
    then obtain e' where r': "r = Inl e'" and e': "e' \<noteq> Undefined" using r by auto
    have cc: "List_copy_ctor throws R m = Some (Inl e', snd (List_dtor (L', m')))"
      unfolding List_copy_ctor_def c using cp r' by simp
    show ?thesis using cc all False e'
      by (intro exI [of _ "Inl e'"] exI [of _ "snd (List_dtor (L', m'))"]) simp
  qed
qed

lemma mutation_leaves_other:
  assumes C: "is_list m C cs ys" and R: "is_list m R qs xs" and okR: "alloc_ok m (nodes_of R qs)"
    and ap: "set (nodes_of C cs) \<inter> (set (nodes_of R qs) \<union> set (avail m)) = {}"
    and run: "list_run throws ops \<lparr>lst = R, mem = m, inserted = i, removed = j\<rparr> = Some st"
  shows "is_list (mem st) C cs ys \<and>
         (\<exists>m3. List_dtor (lst st, mem st) = (Inr (), m3) \<and> is_list m3 C cs ys)"
proof -
  let ?c = "\<lparr>lst = R, mem = m, inserted = i, removed = j\<rparr>"
  have R0: "is_list (mem ?c) (lst ?c) qs xs" and ok0: "alloc_ok (mem ?c) (nodes_of (lst ?c) qs)"
    using R okR by simp_all
  from list_run_refines [OF R0 ok0 run]
  have "\<exists>qs' xs'. is_list (mem st) (lst st) qs' xs' \<and> alloc_ok (mem st) (nodes_of (lst st) qs') \<and>
           evolves m R qs (mem st) (lst st) qs'"
    by simp blast
  then obtain qs' xs' where R1: "is_list (mem st) (lst st) qs' xs'"
    and ok1: "alloc_ok (mem st) (nodes_of (lst st) qs')"
    and ev: "evolves m R qs (mem st) (lst st) qs'"
    by (elim exE conjE)
  have C1: "is_list (mem st) C cs ys"
    and ap1: "set (nodes_of C cs) \<inter> (set (nodes_of (lst st) qs') \<union> set (avail (mem st))) = {}"
    using evolves_other [OF ev C ap] by simp_all
  from List_dtor_spec [OF R1 ok1]
  obtain m3 where dt: "List_dtor (lst st, mem st) = (Inr (), m3)"
    and fr: "\<forall>p. p \<notin> set (nodes_of (lst st) qs') \<union> set (avail (mem st)) \<longrightarrow>
                 cells m3 p = cells (mem st) p"
    by blast
  have C3: "is_list m3 C cs ys"
  proof (rule is_list_frame [OF C1])
    fix p assume "p \<in> set (nodes_of C cs)"
    then have "p \<notin> set (nodes_of (lst st) qs') \<union> set (avail (mem st))" using ap1 by blast
    then show "cells m3 p = cells (mem st) p" using fr by simp
  qed
  show ?thesis using C1 dt C3 by blast
qed

lemma list_step_returns:
  assumes "call_op throws x (lst c, mem c) = (Inr (), L', m')"
  shows "\<exists>st. list_step throws x c = Some st \<and> lst st = L' \<and> mem st = m'"
  using assms by (simp add: list_step_def)

text \<open>
  C7. Copy construction from a well-formed list with the elements \<open>ys\<close>, in any store
  whose allocator is sound. The constructor ends; it returns a list exactly when no
  copy of an element throws and the allocator has two addresses for the sentinels
  and one for each element, and otherwise throws. The list it returns has the size
  of \<open>ys\<close> and a traversal of it yields \<open>ys\<close>, as does a traversal of the original. After
  any sequence of calls on the original with defined behaviour (\<^verbatim>\<open>push_front\<close>,
  \<^verbatim>\<open>push_back\<close>, \<^verbatim>\<open>insert\<close>, \<^verbatim>\<open>pop_front\<close>, \<^verbatim>\<open>pop_back\<close>, \<^verbatim>\<open>erase\<close>, whatever then throws),
  a traversal of the copy still yields \<open>ys\<close>; the destructor of the original then
  returns, and after it a traversal of the copy still yields \<open>ys\<close>.
\<close>

theorem copy_is_equal_and_independent:
  assumes R: "is_list m R qs ys" and ok: "alloc_ok m (nodes_of R qs)"
  shows "\<exists>r m1. List_copy_ctor throws R m = Some (r, m1) \<and> r \<noteq> Inl Undefined \<and>
     ((\<exists>C. r = Inr C) \<longleftrightarrow> (\<forall>y\<in>set ys. \<not> throws y) \<and> length ys + 2 \<le> length (avail m)) \<and>
     (\<forall>C. r = Inr C \<longrightarrow>
        unat (List_size C) = length ys \<and> forward (C, m1) = Some (Inr ys) \<and>
        forward (R, m1) = Some (Inr ys) \<and>
        (\<forall>throws' ops i j st.
           list_run throws' ops \<lparr>lst = R, mem = m1, inserted = i, removed = j\<rparr> = Some st \<longrightarrow>
           forward (C, mem st) = Some (Inr ys) \<and>
           (\<exists>m3. List_dtor (lst st, mem st) = (Inr (), m3) \<and> forward (C, m3) = Some (Inr ys))))"
proof -
  from copy_ctor_spec [OF R ok, of throws]
  obtain r m1 where cc: "List_copy_ctor throws R m = Some (r, m1)" and u: "r \<noteq> Inl Undefined"
    and iff: "(\<exists>C. r = Inr C) \<longleftrightarrow> (\<forall>y\<in>set ys. \<not> throws y) \<and> length ys + 2 \<le> length (avail m)"
    and suc: "\<forall>C. r = Inr C \<longrightarrow>
        (\<exists>cs. is_list m1 C cs ys \<and> alloc_ok m1 (nodes_of C cs) \<and> is_list m1 R qs ys \<and>
              alloc_ok m1 (nodes_of R qs) \<and>
              set (nodes_of C cs) \<inter> (set (nodes_of R qs) \<union> set (avail m1)) = {})"
    by blast
  have "\<forall>C. r = Inr C \<longrightarrow>
        unat (List_size C) = length ys \<and> forward (C, m1) = Some (Inr ys) \<and>
        forward (R, m1) = Some (Inr ys) \<and>
        (\<forall>throws' ops i j st.
           list_run throws' ops \<lparr>lst = R, mem = m1, inserted = i, removed = j\<rparr> = Some st \<longrightarrow>
           forward (C, mem st) = Some (Inr ys) \<and>
           (\<exists>m3. List_dtor (lst st, mem st) = (Inr (), m3) \<and> forward (C, m3) = Some (Inr ys)))"
  proof (intro allI impI)
    fix C assume "r = Inr C"
    with suc obtain cs where C: "is_list m1 C cs ys" and R1: "is_list m1 R qs ys"
      and okR: "alloc_ok m1 (nodes_of R qs)"
      and ap: "set (nodes_of C cs) \<inter> (set (nodes_of R qs) \<union> set (avail m1)) = {}"
      by blast
    have s: "unat (List_size C) = length ys"
      using is_list_length(2) [OF C] by (simp add: List_size_def)
    have f: "forward (C, m1) = Some (Inr ys)" using C by (rule forward_spec)
    have g: "forward (R, m1) = Some (Inr ys)" using R1 by (rule forward_spec)
    have h: "\<forall>throws' ops i j st.
           list_run throws' ops \<lparr>lst = R, mem = m1, inserted = i, removed = j\<rparr> = Some st \<longrightarrow>
           forward (C, mem st) = Some (Inr ys) \<and>
           (\<exists>m3. List_dtor (lst st, mem st) = (Inr (), m3) \<and> forward (C, m3) = Some (Inr ys))"
    proof (intro allI impI)
      fix throws' :: "'a \<Rightarrow> bool" and ops i j st
      assume run: "list_run throws' ops \<lparr>lst = R, mem = m1, inserted = i, removed = j\<rparr> = Some st"
      from mutation_leaves_other [OF C R1 okR ap run]
      obtain m3 where C1: "is_list (mem st) C cs ys"
        and dt: "List_dtor (lst st, mem st) = (Inr (), m3)" and C3: "is_list m3 C cs ys"
        by blast
      have "forward (C, mem st) = Some (Inr ys)" using C1 by (rule forward_spec)
      moreover have "forward (C, m3) = Some (Inr ys)" using C3 by (rule forward_spec)
      ultimately show "forward (C, mem st) = Some (Inr ys) \<and>
           (\<exists>m3. List_dtor (lst st, mem st) = (Inr (), m3) \<and> forward (C, m3) = Some (Inr ys))"
        using dt by blast
    qed
    show "unat (List_size C) = length ys \<and> forward (C, m1) = Some (Inr ys) \<and>
        forward (R, m1) = Some (Inr ys) \<and>
        (\<forall>throws' ops i j st.
           list_run throws' ops \<lparr>lst = R, mem = m1, inserted = i, removed = j\<rparr> = Some st \<longrightarrow>
           forward (C, mem st) = Some (Inr ys) \<and>
           (\<exists>m3. List_dtor (lst st, mem st) = (Inr (), m3) \<and> forward (C, m3) = Some (Inr ys)))"
      using s f g h by (intro conjI)
  qed
  then show ?thesis using cc u iff by (intro exI [of _ r] exI [of _ m1] conjI)
qed

theorem copy_is_equal_and_independent_witness:
  "is_list
     \<lparr>cells = (\<lambda>_. None)(5 \<mapsto> \<lparr>elem_N = None, next = 7, prev = 0\<rparr>,
                            7 \<mapsto> \<lparr>elem_N = Some (1 :: int), next = 8, prev = 5\<rparr>,
                            8 \<mapsto> \<lparr>elem_N = Some 2, next = 9, prev = 7\<rparr>,
                            9 \<mapsto> \<lparr>elem_N = Some 3, next = 6, prev = 8\<rparr>,
                            6 \<mapsto> \<lparr>elem_N = None, next = 0, prev = 9\<rparr>),
       avail = [10, 11, 12, 13, 14, 15]\<rparr>
     \<lparr>size_L = 3, begin_L = 5, end_L = 6\<rparr> [7, 8, 9] [1, 2, 3] \<and>
   (\<exists>C m1 st m3.
      List_copy_ctor (\<lambda>_. False) \<lparr>size_L = 3, begin_L = 5, end_L = 6\<rparr>
        \<lparr>cells = (\<lambda>_. None)(5 \<mapsto> \<lparr>elem_N = None, next = 7, prev = 0\<rparr>,
                            7 \<mapsto> \<lparr>elem_N = Some (1 :: int), next = 8, prev = 5\<rparr>,
                            8 \<mapsto> \<lparr>elem_N = Some 2, next = 9, prev = 7\<rparr>,
                            9 \<mapsto> \<lparr>elem_N = Some 3, next = 6, prev = 8\<rparr>,
                            6 \<mapsto> \<lparr>elem_N = None, next = 0, prev = 9\<rparr>),
          avail = [10, 11, 12, 13, 14, 15]\<rparr> = Some (Inr C, m1) \<and>
      unat (List_size C) = 3 \<and> forward (C, m1) = Some (Inr [1, 2, 3]) \<and>
      list_run (\<lambda>_. False) [PopFront, PushBack 9]
        \<lparr>lst = \<lparr>size_L = 3, begin_L = 5, end_L = 6\<rparr>, mem = m1, inserted = 0, removed = 0\<rparr> = Some st \<and>
      forward (lst st, mem st) = Some (Inr [2, 3, 9]) \<and>
      forward (C, mem st) = Some (Inr [1, 2, 3]) \<and>
      List_dtor (lst st, mem st) = (Inr (), m3) \<and>
      forward (C, m3) = Some (Inr [1, 2, 3]))"
proof -
  let ?M = "\<lparr>cells = (\<lambda>_. None)(5 \<mapsto> \<lparr>elem_N = None, next = 7, prev = 0\<rparr>,
                            7 \<mapsto> \<lparr>elem_N = Some (1 :: int), next = 8, prev = 5\<rparr>,
                            8 \<mapsto> \<lparr>elem_N = Some 2, next = 9, prev = 7\<rparr>,
                            9 \<mapsto> \<lparr>elem_N = Some 3, next = 6, prev = 8\<rparr>,
                            6 \<mapsto> \<lparr>elem_N = None, next = 0, prev = 9\<rparr>),
       avail = [10, 11, 12, 13, 14, 15]\<rparr>"
  let ?R = "\<lparr>size_L = 3, begin_L = 5, end_L = 6\<rparr>"
  let ?f = "\<lambda>_ :: int. False"
  have R: "is_list ?M ?R [7, 8, 9] [1, 2, 3]"
    by (simp add: is_list_def nodes_of_def elem_at_def)
  have ok: "alloc_ok ?M (nodes_of ?R [7, 8, 9])"
    by (simp add: alloc_ok_def nodes_of_def)
  from copy_ctor_spec [OF R ok, of ?f]
  obtain r0 m1 where c0: "List_copy_ctor ?f ?R ?M = Some (r0, m1)"
    and s0: "\<forall>C. r0 = Inr C \<longrightarrow>
        (\<exists>cs. is_list m1 C cs [1, 2, 3] \<and> alloc_ok m1 (nodes_of C cs) \<and>
              is_list m1 ?R [7, 8, 9] [1, 2, 3] \<and> alloc_ok m1 (nodes_of ?R [7, 8, 9]) \<and>
              set (nodes_of C cs) \<inter> (set (nodes_of ?R [7, 8, 9]) \<union> set (avail m1)) = {})"
    by blast
  from copy_is_equal_and_independent [OF R ok, of ?f]
  obtain r m1' where cc: "List_copy_ctor ?f ?R ?M = Some (r, m1')"
    and iff: "(\<exists>C. r = Inr C) \<longleftrightarrow>
        (\<forall>y\<in>set [1 :: int, 2, 3]. \<not> ?f y) \<and> length [1 :: int, 2, 3] + 2 \<le> length (avail ?M)"
    and suc: "\<forall>C. r = Inr C \<longrightarrow>
        unat (List_size C) = length [1 :: int, 2, 3] \<and> forward (C, m1') = Some (Inr [1, 2, 3]) \<and>
        forward (?R, m1') = Some (Inr [1, 2, 3]) \<and>
        (\<forall>throws' ops i j st.
           list_run throws' ops \<lparr>lst = ?R, mem = m1', inserted = i, removed = j\<rparr> = Some st \<longrightarrow>
           forward (C, mem st) = Some (Inr [1, 2, 3]) \<and>
           (\<exists>m3. List_dtor (lst st, mem st) = (Inr (), m3) \<and> forward (C, m3) = Some (Inr [1, 2, 3])))"
    by (elim exE conjE)
  have same: "r0 = r" "m1 = m1'" using c0 cc by simp_all
  have "\<exists>C. r = Inr C" unfolding iff by simp
  then obtain C where rC: "r = Inr C" by (elim exE)
  from suc rC have sz: "unat (List_size C) = length [1 :: int, 2, 3]"
    and f: "forward (C, m1') = Some (Inr [1, 2, 3])"
    and h: "\<forall>throws' ops i j st.
           list_run throws' ops \<lparr>lst = ?R, mem = m1', inserted = i, removed = j\<rparr> = Some st \<longrightarrow>
           forward (C, mem st) = Some (Inr [1, 2, 3]) \<and>
           (\<exists>m3. List_dtor (lst st, mem st) = (Inr (), m3) \<and> forward (C, m3) = Some (Inr [1, 2, 3]))"
    by blast+
  from s0 rC same obtain cs where R1: "is_list m1' ?R (7 # [8, 9]) (1 # [2, 3])"
    and ok1: "alloc_ok m1' (nodes_of ?R (7 # [8, 9]))"
    by auto
  let ?R2 = "?R\<lparr>size_L := size_L ?R - 1\<rparr>"
  from List_pop_front_spec [OF R1]
  obtain m2 where pf: "List_pop_front (?R, m1') = (Inr (), ?R2, m2)"
    and R2: "is_list m2 ?R2 [8, 9] [2, 3]"
    and ok2': "alloc_ok m1' (nodes_of ?R (7 # [8, 9])) \<longrightarrow> alloc_ok m2 (nodes_of ?R [8, 9])"
    and av2: "avail m2 = 7 # avail m1'"
    by blast
  have ok2: "alloc_ok m2 (nodes_of ?R2 [8, 9])" using ok2' ok1 by (simp add: nodes_of_def)
  let ?c0 = "\<lparr>lst = ?R, mem = m1', inserted = 0, removed = 0\<rparr>"
  have "call_op ?f PopFront (lst ?c0, mem ?c0) = (Inr (), ?R2, m2)"
    using pf by (simp add: call_op_def)
  then have "\<exists>st. list_step ?f PopFront ?c0 = Some st \<and> lst st = ?R2 \<and> mem st = m2"
    by (rule list_step_returns)
  then obtain c1 where st1: "list_step ?f PopFront ?c0 = Some c1"
    and l1: "lst c1 = ?R2" and m1: "mem c1 = m2"
    by (elim exE conjE)
  have nt: "\<not> ?f 9" by simp
  have "\<exists>L' m'. List_push_back ?f 9 (?R2, m2) = (Inr (), L', m') \<and>
           is_list m' L' ([8, 9] @ [7]) ([2, 3] @ [9]) \<and> alloc_ok m' (nodes_of L' ([8, 9] @ [7])) \<and>
           avail m' = avail m1' \<and> evolves m2 ?R2 [8, 9] m' L' ([8, 9] @ [7])"
    using R2 ok2 av2 nt by (rule push_back_spec)
  then obtain L3 m3 where pb: "List_push_back ?f 9 (?R2, m2) = (Inr (), L3, m3)"
    and R3: "is_list m3 L3 ([8, 9] @ [7]) ([2, 3] @ [9])"
    by (elim exE conjE)
  have "call_op ?f (PushBack 9) (lst c1, mem c1) = (Inr (), L3, m3)"
    using pb l1 m1 by (simp add: call_op_def)
  then have "\<exists>st. list_step ?f (PushBack 9) c1 = Some st \<and> lst st = L3 \<and> mem st = m3"
    by (rule list_step_returns)
  then obtain c2 where st2: "list_step ?f (PushBack 9) c1 = Some c2"
    and l2: "lst c2 = L3" and m2: "mem c2 = m3"
    by (elim exE conjE)
  have run: "list_run ?f [PopFront, PushBack 9] ?c0 = Some c2"
    using st1 st2 by simp
  have fo: "forward (lst c2, mem c2) = Some (Inr [2, 3, 9])"
    using forward_spec [OF R3] l2 m2 by simp
  from h run obtain m4 where fc: "forward (C, mem c2) = Some (Inr [1, 2, 3])"
    and dt: "List_dtor (lst c2, mem c2) = (Inr (), m4)"
    and fd: "forward (C, m4) = Some (Inr [1, 2, 3])"
    by blast
  have cc': "List_copy_ctor ?f ?R ?M = Some (Inr C, m1')" using cc rC by simp
  have sz': "unat (List_size C) = 3" using sz by simp
  show ?thesis
    using R cc' sz' f run fo fc dt fd
    by (intro conjI exI [of _ C] exI [of _ m1'] exI [of _ c2] exI [of _ m4])
qed

end
